theory Spec2Isabelle
  imports Main "HOL-Library.Word" "HOL-Library.Multiset"
begin

section \<open>status-reportr: weekly windows and section classification\<close>

text \<open>
  A shallow embedding of the weekly windowing (schedule.go), the item queries and
  matchers (structs.go) and the section extraction (config.go, main.go) of
  status-reportr. The embedding follows the glob-based revision of the sources, the one
  that go.mod and config\_test.go belong to; the older revision of
  \<open>Section.ExtractAndRender\<close>, which compiles every branch pattern as a regular
  expression, is embedded separately in the last definition section.
\<close>

subsection \<open>time.Time\<close>

text \<open>
  A \<open>time.Time\<close> is an instant together with a location. \<open>ns\<close> is the instant in
  nanoseconds since the zero Time (January 1, year 1, 00:00:00 UTC, a Monday);
  \<open>zone\<close> is the offset of the location east of UTC, in nanoseconds, taken as fixed.
  The monotonic clock reading and the bounds of the 64-bit representation are not modelled.
  \<open>Before\<close>, \<open>After\<close> and \<open>Equal\<close> compare instants only, as in Go.
\<close>

record Time =
  ns :: int
  zone :: int

definition zeroTime :: Time where
  "zeroTime = \<lparr>ns = 0, zone = 0\<rparr>"

definition Before :: "Time \<Rightarrow> Time \<Rightarrow> bool" where
  "Before t u = (ns t < ns u)"

definition After :: "Time \<Rightarrow> Time \<Rightarrow> bool" where
  "After t u = (ns t > ns u)"

definition Equal :: "Time \<Rightarrow> Time \<Rightarrow> bool" where
  "Equal t u = (ns t = ns u)"

definition DAY :: int where
  "DAY = 86400000000000"

text \<open>\<open>t.AddDate(0, 0, d)\<close>: the same wall clock \<open>d\<close> days later, in the same location.\<close>

definition AddDate_days :: "Time \<Rightarrow> int \<Rightarrow> Time" where
  "AddDate_days t d = t\<lparr>ns := ns t + d * DAY\<rparr>"

text \<open>The civil day of \<open>t\<close> in its own location, counted from January 1, year 1.\<close>

definition civil_day :: "Time \<Rightarrow> int" where
  "civil_day t = (ns t + zone t) div DAY"

text \<open>\<open>t.Weekday()\<close>, Sunday = 0; day 0 is a Monday.\<close>

definition Weekday :: "Time \<Rightarrow> int" where
  "Weekday t = (civil_day t + 1) mod 7"

text \<open>
  \<open>time.Date(y, m, d, 0, 0, 0, 0, time.UTC)\<close>, with the date \<open>(y, m, d)\<close> given as its
  civil day number.
\<close>

definition Date_UTC :: "int \<Rightarrow> Time" where
  "Date_UTC day = \<lparr>ns = day * DAY, zone = 0\<rparr>"

subsection \<open>Package strings and package glob\<close>

text \<open>
  Go strings are byte strings. \<open>ToLower\<close> and \<open>TrimSpace\<close> are modelled on ASCII:
  bytes outside ASCII are left alone by \<open>ToLower\<close> and are not white space for
  \<open>TrimSpace\<close>.
\<close>

definition lower_byte :: "char \<Rightarrow> char" where
  "lower_byte c =
     (case map_of (zip ''ABCDEFGHIJKLMNOPQRSTUVWXYZ'' ''abcdefghijklmnopqrstuvwxyz'') c of
        Some d \<Rightarrow> d
      | None \<Rightarrow> c)"

definition ToLower :: "string \<Rightarrow> string" where
  "ToLower s = map lower_byte s"

definition isSpace :: "char \<Rightarrow> bool" where
  "isSpace c = (c \<in> set [CHR 0x09, CHR 0x0A, CHR 0x0B, CHR 0x0C, CHR 0x0D, CHR '' ''])"

definition TrimSpace :: "string \<Rightarrow> string" where
  "TrimSpace s = rev (dropWhile isSpace (rev (dropWhile isSpace s)))"

definition HasPrefix_str :: "string \<Rightarrow> string \<Rightarrow> bool" where
  "HasPrefix_str s p = (take (length p) s = p)"

definition HasSuffix_str :: "string \<Rightarrow> string \<Rightarrow> bool" where
  "HasSuffix_str s p = (length p \<le> length s \<and> drop (length s - length p) s = p)"

text \<open>\<open>strings.Index(s, sub)\<close>: the first position of \<open>sub\<close> in \<open>s\<close>, or -1.\<close>

fun Index :: "string \<Rightarrow> string \<Rightarrow> int" where
  "Index [] sub = (if sub = [] then 0 else -1)"
| "Index (c # s) sub =
     (if HasPrefix_str (c # s) sub then 0
      else (let r = Index s sub in if r < 0 then -1 else r + 1))"

text \<open>\<open>strings.Split(s, "*")\<close>: the pieces between the stars, one more than there are stars.\<close>

fun Split_star :: "string \<Rightarrow> string list" where
  "Split_star [] = [[]]"
| "Split_star (c # s) =
     (if c = CHR ''*'' then [] # Split_star s
      else (case Split_star s of
              [] \<Rightarrow> [[c]]
            | p # ps \<Rightarrow> (c # p) # ps))"

text \<open>
  \<open>glob.Glob\<close> of github.com/ryanuber/go-glob v1.0.0, the version go.mod pins. It is a
  dependency and not part of the repository; the model follows the library's source:
  the empty pattern matches the empty subject only, the pattern \<open>*\<close> matches everything,
  a pattern without a star is compared for equality, and otherwise the pieces between
  the stars are searched for from left to right. \<open>glob_parts\<close> is the loop over all
  pieces but the last; it returns what is left of the subject, or \<open>None\<close> where the
  library returns false.
\<close>

fun glob_parts :: "bool \<Rightarrow> nat \<Rightarrow> string list \<Rightarrow> string \<Rightarrow> string option" where
  "glob_parts leadingGlob i [] subj = Some subj"
| "glob_parts leadingGlob i (p # ps) subj =
     (let idx = Index subj p in
      if i = 0 \<and> \<not> leadingGlob \<and> idx \<noteq> 0 then None
      else if i \<noteq> 0 \<and> idx < 0 then None
      else glob_parts leadingGlob (i + 1) ps (drop (nat (idx + int (length p))) subj))"

definition Glob :: "string \<Rightarrow> string \<Rightarrow> bool" where
  "Glob pattern subj =
     (if pattern = [] then subj = pattern
      else if pattern = ''*'' then True
      else (let parts = Split_star pattern in
            if length parts = 1 then subj = pattern
            else (let leadingGlob = HasPrefix_str pattern ''*'';
                      trailingGlob = HasSuffix_str pattern ''*'';
                      end = length parts - 1
                  in case glob_parts leadingGlob 0 (take end parts) subj of
                       None \<Rightarrow> False
                     | Some rest \<Rightarrow> trailingGlob \<or> HasSuffix_str rest (parts ! end))))"

subsection \<open>Items and fields (structs.go)\<close>

definition FIELD_EMPTY :: int where "FIELD_EMPTY = 0"
definition FIELD_DATE :: int where "FIELD_DATE = 1"
definition FIELD_TEXT :: int where "FIELD_TEXT = 2"
definition FIELD_NUMBER :: int where "FIELD_NUMBER = 3"
definition FIELD_ITERATION :: int where "FIELD_ITERATION = 4"

text \<open>
  \<open>Field\<close> is the struct of the source, every payload present whatever the tag says.
  \<open>Number\<close> (a float64) and \<open>Duration\<close> (an int64) are kept as their 64 bits; no
  modelled function reads them.
\<close>

record Field =
  Type :: int
  Name :: string
  Date :: Time
  Number :: "64 word"
  Text :: string
  Duration :: "64 word"
  IterationId :: string
  StartDate :: Time
  Title :: string

record Repo =
  Name :: string
  Slug :: string
  URL :: string
  Branch :: string

record Item =
  ID :: string
  Archived :: bool
  Fields :: "string \<rightharpoonup> Field"
  Labels :: "string list"
  DoneAt :: Time
  ItemType :: string
  Number :: int
  URL :: string
  Repo :: Repo

type_synonym Items = "Item list"

definition IsDone :: "Item \<Rightarrow> bool" where
  "IsDone it =
     (case Fields it ''Status'' of
        Some status \<Rightarrow> Type status = FIELD_TEXT \<and> ''done'' = ToLower (Text status)
      | None \<Rightarrow> False)"

definition Done :: "Item \<Rightarrow> Time" where
  "Done it =
     (case Fields it ''Status'' of
        Some status \<Rightarrow>
          (if Type status = FIELD_TEXT \<and> ''done'' = ToLower (Text status) then DoneAt it
           else zeroTime)
      | None \<Rightarrow> zeroTime)"

definition Item_Title :: "Item \<Rightarrow> string" where
  "Item_Title it =
     (case Fields it ''Title'' of
        Some status \<Rightarrow> (if Type status = FIELD_TEXT then Text status else [])
      | None \<Rightarrow> [])"

definition HasLabel :: "Item \<Rightarrow> string \<Rightarrow> bool" where
  "HasLabel it l =
     (let l' = TrimSpace l in list_ex (\<lambda>label. Glob l' (TrimSpace label)) (Item.Labels it))"

definition HasPrefix :: "Item \<Rightarrow> string \<Rightarrow> bool" where
  "HasPrefix it prefix = Glob (TrimSpace prefix @ ''*'') (TrimSpace (Item_Title it))"

definition IsBranch :: "Item \<Rightarrow> string \<Rightarrow> string \<Rightarrow> string \<Rightarrow> bool" where
  "IsBranch it org repo branch =
     (let slug = TrimSpace org @ ''/'' @ TrimSpace repo;
          branch' = TrimSpace branch
      in length (Slug (Item.Repo it)) > 0 \<and>
         length (Repo.Branch (Item.Repo it)) > 0 \<and>
         Glob slug (TrimSpace (Slug (Item.Repo it))) \<and>
         Glob branch' (TrimSpace (Repo.Branch (Item.Repo it))))"

text \<open>
  \<open>GetDone\<close>: the done items, then \<open>sort.SliceStable\<close> on \<open>Done()\<close>; \<open>sort_key\<close> is the
  stable insertion sort.
\<close>

definition GetDone :: "Items \<Rightarrow> Items" where
  "GetDone list = sort_key (\<lambda>it. ns (Done it)) (filter IsDone list)"

primrec GetOlder :: "Items \<Rightarrow> Time \<Rightarrow> Items" where
  "GetOlder [] when = []"
| "GetOlder (item # list) when =
     (let at = Done item in
      if \<not> Equal at zeroTime \<and> (Before at when \<or> Equal at when)
      then item # GetOlder list when
      else GetOlder list when)"

primrec in_range_loop :: "Items \<Rightarrow> Time \<Rightarrow> Time \<Rightarrow> Items" where
  "in_range_loop [] start end = []"
| "in_range_loop (item # list) start end =
     (let at = Done item in
      if Before at end \<and> After at start then item # in_range_loop list start end
      else if Equal at start then item # in_range_loop list start end
      else in_range_loop list start end)"

definition GetInRange :: "Items \<Rightarrow> Time \<Rightarrow> Time \<Rightarrow> Items" where
  "GetInRange list start end =
     (if After start end then in_range_loop list end start
      else in_range_loop list start end)"

primrec ExtractByLabels :: "Items \<Rightarrow> string list \<Rightarrow> Items \<times> Items" where
  "ExtractByLabels [] labels = ([], [])"
| "ExtractByLabels (item # list) labels =
     (let (matching, remaining) = ExtractByLabels list labels in
      if list_ex (HasLabel item) labels then (item # matching, remaining)
      else (matching, item # remaining))"

primrec ExtractByPrefixes :: "Items \<Rightarrow> string list \<Rightarrow> Items \<times> Items" where
  "ExtractByPrefixes [] prefixes = ([], [])"
| "ExtractByPrefixes (item # list) prefixes =
     (let (matching, remaining) = ExtractByPrefixes list prefixes in
      if list_ex (HasPrefix item) prefixes then (item # matching, remaining)
      else (matching, item # remaining))"

primrec ExtractByBranch :: "Items \<Rightarrow> string \<Rightarrow> string \<Rightarrow> string \<Rightarrow> Items \<times> Items" where
  "ExtractByBranch [] org repo branch = ([], [])"
| "ExtractByBranch (item # list) org repo branch =
     (let (matching, remaining) = ExtractByBranch list org repo branch in
      if IsBranch item org repo branch then (item # matching, remaining)
      else (matching, item # remaining))"

subsection \<open>Sections (config.go)\<close>

record Branch =
  Org :: string
  Repo :: string
  Branch :: string

record Match =
  Labels :: "string list"
  Prefixes :: "string list"
  Branches :: "Branch list"

record Section =
  Name :: string
  RenderOrder :: int
  OmitIfEmpty :: bool
  Match :: Match

text \<open>The loop of \<open>Section.Extract\<close> over the branch rules, with the two accumulators.\<close>

primrec extract_branches :: "Branch list \<Rightarrow> Items \<Rightarrow> Items \<Rightarrow> Items \<times> Items" where
  "extract_branches [] mine left = (mine, left)"
| "extract_branches (b # bs) mine left =
     (let (tmp, left') = ExtractByBranch left (Org b) (Branch.Repo b) (Branch.Branch b) in
      extract_branches bs (mine @ tmp) left')"

definition Extract :: "Section \<Rightarrow> Items \<Rightarrow> Items \<times> Items" where
  "Extract s list =
     (let (tmp, left) = ExtractByLabels list (Match.Labels (Match s));
          mine = tmp;
          (tmp, left) = ExtractByPrefixes left (Prefixes (Match s));
          mine = mine @ tmp
      in extract_branches (Branches (Match s)) mine left)"

text \<open>
  \<open>Section.Render\<close> writes a heading with the section's name and the number of items
  and one line per item, or nothing when the section is empty and to be omitted. The text
  is not modelled: a written section is the pair of the name and the items it lists.
\<close>

type_synonym Block = "(string \<times> Items) option"

definition Render :: "Section \<Rightarrow> Items \<Rightarrow> Block" where
  "Render s list =
     (if OmitIfEmpty s \<and> length list = 0 then None else Some (Section.Name s, list))"

definition ExtractAndRender :: "Section \<Rightarrow> Items \<Rightarrow> Block \<times> Items" where
  "ExtractAndRender s list = (let (mine, left) = Extract s list in (Render s mine, left))"

text \<open>
  The loop of \<open>render\<close> (main.go) over the configured sections, each one consuming what
  the previous one left: the lists the sections keep, in order, and the final rest that
  goes to the unclassified section.
\<close>

primrec extract_chain :: "Section list \<Rightarrow> Items \<Rightarrow> Items list \<times> Items" where
  "extract_chain [] left = ([], left)"
| "extract_chain (s # ss) left =
     (let (mine, left') = Extract s left;
          (buckets, rest) = extract_chain ss left'
      in (mine # buckets, rest))"

subsection \<open>Weekly windows (schedule.go)\<close>

record WeeklyItems =
  Items :: Items
  Start :: Time
  End :: Time

definition getClosestSunday :: "Time \<Rightarrow> Time" where
  "getClosestSunday now =
     (let day = Weekday now;
          tmp = AddDate_days now (-1 * day)
      in Date_UTC (civil_day tmp))"

definition getPreviousSunday :: "Time \<Rightarrow> Time" where
  "getPreviousSunday when = AddDate_days when (-7)"

text \<open>
  The measure of the loop of \<open>splitByWeeks\<close>: the items still at or before \<open>start\<close>,
  each weighted by its distance to \<open>start\<close>, and one more while the pool is not empty.
\<close>

definition pool_weight :: "Items \<Rightarrow> Time \<Rightarrow> nat" where
  "pool_weight list start =
     (if list = [] then 0 else 1) + length (GetOlder list start) +
     sum_list (map (\<lambda>it. nat (ns start - ns (Done it))) (GetOlder list start))"

lemma GetOlder_filter:
  "GetOlder list when = filter (\<lambda>it. ns (Done it) \<noteq> 0 \<and> ns (Done it) \<le> ns when) list"
  by (induction list) (auto simp: Let_def Equal_def Before_def zeroTime_def)

lemma older_weight_le:
  "length (GetOlder xs (getPreviousSunday s)) +
     sum_list (map (\<lambda>it. nat (ns (getPreviousSunday s) - ns (Done it)))
       (GetOlder xs (getPreviousSunday s)))
   \<le> sum_list (map (\<lambda>it. nat (ns s - ns (Done it))) xs)"
  by (induction xs)
    (auto simp: GetOlder_filter getPreviousSunday_def AddDate_days_def DAY_def)

lemma pool_weight_decreases:
  assumes "list \<noteq> []"
  shows "pool_weight (GetOlder list start) (getPreviousSunday start) < pool_weight list start"
proof (cases "GetOlder list start = []")
  case True
  with assms show ?thesis by (simp add: pool_weight_def)
next
  case False
  let ?p = "GetOlder list start"
  let ?q = "GetOlder ?p (getPreviousSunday start)"
  have "0 < length ?p" using False by simp
  with older_weight_le [of ?p start]
  have "length ?q + sum_list (map (\<lambda>it. nat (ns (getPreviousSunday start) - ns (Done it))) ?q)
        < length ?p + sum_list (map (\<lambda>it. nat (ns start - ns (Done it))) ?p)"
    by linarith
  with assms False show ?thesis by (simp add: pool_weight_def)
qed

function weeks_loop :: "Items \<Rightarrow> Time \<Rightarrow> Time \<Rightarrow> WeeklyItems list" where
  "weeks_loop list start end =
     (if length list > 0
      then \<lparr>Items = GetInRange list start end, Start = start, End = end\<rparr> #
           weeks_loop (GetOlder list start) (getPreviousSunday start) start
      else [])"
  by pat_completeness auto
termination
  by (relation "measure (\<lambda>(list, start, end). pool_weight list start)")
    (auto intro: pool_weight_decreases)

declare weeks_loop.simps [simp del]

definition splitByWeeks :: "Items \<Rightarrow> Time \<Rightarrow> WeeklyItems list" where
  "splitByWeeks list now =
     (let end = getClosestSunday now;
          start = getPreviousSunday end;
          list = sort_key (\<lambda>it. ns (DoneAt it)) list;
          list = GetOlder list end
      in weeks_loop list start end)"

text \<open>
  The loop once more, as it is written: a \<open>for\<close> with the accumulator \<open>weeks\<close>, with
  no appeal to its termination. \<open>None\<close> stands for a loop that never returns.
\<close>

partial_function (option) weeks_loop_opt ::
  "Items \<Rightarrow> Time \<Rightarrow> Time \<Rightarrow> WeeklyItems list \<Rightarrow> WeeklyItems list option" where
  "weeks_loop_opt list start end weeks =
     (if length list > 0
      then weeks_loop_opt (GetOlder list start) (getPreviousSunday start) start
             (weeks @ [\<lparr>Items = GetInRange list start end, Start = start, End = end\<rparr>])
      else Some weeks)"

definition splitByWeeks_opt :: "Items \<Rightarrow> Time \<Rightarrow> WeeklyItems list option" where
  "splitByWeeks_opt list now =
     (let end = getClosestSunday now;
          start = getPreviousSunday end;
          list = sort_key (\<lambda>it. ns (DoneAt it)) list;
          list = GetOlder list end
      in weeks_loop_opt list start end [])"

subsection \<open>The revision with regular expressions for branches\<close>

text \<open>
  In the older revision of config.go and structs.go a branch pattern is a regular
  expression: \<open>Section.ExtractAndRender\<close> compiles it with \<open>regexp.Compile\<close> when it
  reaches the branch rule and panics when the pattern does not compile. Package regexp is
  not part of the repository: \<open>Compile\<close> (\<open>None\<close> for an error) and \<open>MatchString\<close> are
  parameters. The matchers of that revision differ from the ones above: labels are compared
  in lower case and \<open>*\<close> matches every item, prefixes are plain string prefixes, and the
  slug is compared for equality. The records \<open>Section\<close>, \<open>Match\<close> and \<open>Branch\<close> are
  shared with the newer revision (whose fields \<open>Labels\<close>, \<open>Prefixes\<close>, \<open>Branches\<close>
  are \<open>Label\<close>, \<open>Prefix\<close>, \<open>Branch\<close> there), and \<open>DoneAt\<close> stands for the field
  \<open>UpdatedAt\<close>.
\<close>

definition HasLabel_re :: "Item \<Rightarrow> string \<Rightarrow> bool" where
  "HasLabel_re it l =
     (let l' = ToLower (TrimSpace l) in
      if l' = ''*'' then True
      else list_ex (\<lambda>label. ToLower (TrimSpace label) = l') (Item.Labels it))"

definition HasPrefix_re :: "Item \<Rightarrow> string \<Rightarrow> bool" where
  "HasPrefix_re it prefix =
     (let prefix' = TrimSpace prefix; title = TrimSpace (Item_Title it)
      in HasPrefix_str title prefix')"

definition IsBranch_re :: "('re \<Rightarrow> string \<Rightarrow> bool) \<Rightarrow> Item \<Rightarrow> string \<Rightarrow> string \<Rightarrow> 're \<Rightarrow> bool" where
  "IsBranch_re MatchString it org repo branch =
     (let slug = TrimSpace org @ ''/'' @ TrimSpace repo in
      if Slug (Item.Repo it) \<noteq> slug then False
      else MatchString branch (Repo.Branch (Item.Repo it)))"

primrec ExtractByLabels_re :: "Items \<Rightarrow> string list \<Rightarrow> Items \<times> Items" where
  "ExtractByLabels_re [] labels = ([], [])"
| "ExtractByLabels_re (item # list) labels =
     (let (matching, remaining) = ExtractByLabels_re list labels in
      if list_ex (HasLabel_re item) labels then (item # matching, remaining)
      else (matching, item # remaining))"

primrec ExtractByPrefixes_re :: "Items \<Rightarrow> string list \<Rightarrow> Items \<times> Items" where
  "ExtractByPrefixes_re [] prefixes = ([], [])"
| "ExtractByPrefixes_re (item # list) prefixes =
     (let (matching, remaining) = ExtractByPrefixes_re list prefixes in
      if list_ex (HasPrefix_re item) prefixes then (item # matching, remaining)
      else (matching, item # remaining))"

primrec ExtractByBranch_re ::
  "('re \<Rightarrow> string \<Rightarrow> bool) \<Rightarrow> Items \<Rightarrow> string \<Rightarrow> string \<Rightarrow> 're \<Rightarrow> Items \<times> Items" where
  "ExtractByBranch_re MatchString [] org repo branch = ([], [])"
| "ExtractByBranch_re MatchString (item # list) org repo branch =
     (let (matching, remaining) = ExtractByBranch_re MatchString list org repo branch in
      if IsBranch_re MatchString item org repo branch then (item # matching, remaining)
      else (matching, item # remaining))"

text \<open>
  The panic of \<open>ExtractAndRender\<close>: the section's name and the branch rule of the
  message; the text of the compile error is not modelled.
\<close>

datatype panic = BranchRegexPanic string Branch

primrec branches_re ::
  "(string \<Rightarrow> 're option) \<Rightarrow> ('re \<Rightarrow> string \<Rightarrow> bool) \<Rightarrow> string \<Rightarrow> Branch list \<Rightarrow>
   Items \<Rightarrow> Items \<Rightarrow> panic + Items \<times> Items" where
  "branches_re Compile MatchString name [] mine left = Inr (mine, left)"
| "branches_re Compile MatchString name (branch # rest) mine left =
     (let branchRe = TrimSpace (Branch.Branch branch) in
      case Compile branchRe of
        None \<Rightarrow> Inl (BranchRegexPanic name branch)
      | Some re \<Rightarrow>
          (let (tmp, left') =
                 ExtractByBranch_re MatchString left (Org branch) (Branch.Repo branch) re
           in branches_re Compile MatchString name rest (mine @ tmp) left'))"

definition ExtractAndRender_re ::
  "(string \<Rightarrow> 're option) \<Rightarrow> ('re \<Rightarrow> string \<Rightarrow> bool) \<Rightarrow> Section \<Rightarrow> Items \<Rightarrow>
   panic + Block \<times> Items" where
  "ExtractAndRender_re Compile MatchString s list =
     (let (tmp, left) = ExtractByLabels_re list (Match.Labels (Match s));
          mine = tmp;
          (tmp, left) = ExtractByPrefixes_re left (Prefixes (Match s));
          mine = mine @ tmp
      in case branches_re Compile MatchString (Section.Name s) (Branches (Match s)) mine left of
           Inl p \<Rightarrow> Inl p
         | Inr (mine, left) \<Rightarrow> Inr (Render s mine, left))"

text \<open>
  The part of the configuration that \<open>render\<close> reads for the sections. \<open>render\<close> fills a
  map from render order to the text of a section: first the configured sections in their
  order, each on what the one before left, then the unclassified section with the rest.
  The list of labels and the assembly of the text, which cannot fail, are left out.
\<close>

record Unclassified =
  Name :: string
  RenderOrder :: int
  OmitIfEmpty :: bool

record Config =
  Unclassified :: Unclassified
  Sections :: "Section list"

primrec render_sections_re ::
  "(string \<Rightarrow> 're option) \<Rightarrow> ('re \<Rightarrow> string \<Rightarrow> bool) \<Rightarrow> Section list \<Rightarrow> Items \<Rightarrow>
   (int \<rightharpoonup> Block) \<Rightarrow> panic + (int \<rightharpoonup> Block) \<times> Items" where
  "render_sections_re Compile MatchString [] left sections = Inr (sections, left)"
| "render_sections_re Compile MatchString (section # rest) left sections =
     (case ExtractAndRender_re Compile MatchString section left of
        Inl p \<Rightarrow> Inl p
      | Inr (buf, left') \<Rightarrow>
          render_sections_re Compile MatchString rest left'
            (sections(Section.RenderOrder section \<mapsto> buf)))"

definition render_re ::
  "(string \<Rightarrow> 're option) \<Rightarrow> ('re \<Rightarrow> string \<Rightarrow> bool) \<Rightarrow> Config \<Rightarrow> WeeklyItems \<Rightarrow>
   panic + (int \<rightharpoonup> Block)" where
  "render_re Compile MatchString cfg week =
     (case render_sections_re Compile MatchString (Sections cfg) (Items week) Map.empty of
        Inl p \<Rightarrow> Inl p
      | Inr (sections, left) \<Rightarrow>
          Inr (sections(Unclassified.RenderOrder (Unclassified cfg) \<mapsto>
                 Render \<lparr>Section.Name = Unclassified.Name (Unclassified cfg),
                         Section.RenderOrder = Unclassified.RenderOrder (Unclassified cfg),
                         Section.OmitIfEmpty = Unclassified.OmitIfEmpty (Unclassified cfg),
                         Match = \<lparr>Match.Labels = [], Prefixes = [], Branches = []\<rparr>\<rparr>
                   left)))"

text \<open>
  The loop of \<open>wrapped\<close> over the windows: render a window, write its file, go on. The
  state is the list of files written so far, each with the window it reports on; a panic
  ends the run and leaves the files written before it. Writing a file is taken to succeed.
\<close>

type_synonym ReportFile = "Time \<times> Time \<times> (int \<rightharpoonup> Block)"

primrec write_reports_re ::
  "(string \<Rightarrow> 're option) \<Rightarrow> ('re \<Rightarrow> string \<Rightarrow> bool) \<Rightarrow> Config \<Rightarrow> WeeklyItems list \<Rightarrow>
   ReportFile list \<Rightarrow> panic \<times> ReportFile list + ReportFile list" where
  "write_reports_re Compile MatchString cfg [] files = Inr files"
| "write_reports_re Compile MatchString cfg (week # weeks) files =
     (case render_re Compile MatchString cfg week of
        Inl p \<Rightarrow> Inl (p, files)
      | Inr data \<Rightarrow>
          write_reports_re Compile MatchString cfg weeks (files @ [(Start week, End week, data)]))"

text \<open>Whether some branch rule of some section does not compile.\<close>

definition has_invalid_branch :: "(string \<Rightarrow> 're option) \<Rightarrow> Section list \<Rightarrow> bool" where
  "has_invalid_branch Compile sections =
     list_ex (\<lambda>s. list_ex (\<lambda>b. Compile (TrimSpace (Branch.Branch b)) = None) (Branches (Match s)))
       sections"

subsection \<open>Sample data\<close>

text \<open>
  Items in the shape of the fixtures of graphql\_test.go: a text field, and an item of
  the repository \<open>org/repo\<close> with a status, a title, labels, a base branch (empty for
  an issue) and a completion time.
\<close>

definition text_field :: "string \<Rightarrow> string \<Rightarrow> Field" where
  "text_field name text =
     \<lparr>Type = FIELD_TEXT, Field.Name = name, Date = zeroTime, Field.Number = 0, Text = text,
      Duration = 0, IterationId = [], StartDate = zeroTime, Title = []\<rparr>"

definition sample_item ::
  "string \<Rightarrow> string \<Rightarrow> string \<Rightarrow> string list \<Rightarrow> string \<Rightarrow> Time \<Rightarrow> Item" where
  "sample_item ident status title labels branch at =
     \<lparr>ID = ident, Archived = False,
      Fields = [''Title'' \<mapsto> text_field ''Title'' title,
                ''Status'' \<mapsto> text_field ''Status'' status],
      Labels = labels, DoneAt = at,
      ItemType = (if branch = [] then ''ISSUE'' else ''PR''),
      Item.Number = 0, Item.URL = [],
      Item.Repo = \<lparr>Repo.Name = ''repo'', Slug = ''org/repo'', Repo.URL = [],
                    Repo.Branch = branch\<rparr>\<rparr>"

text \<open>The two kinds of fixture of graphql\_test.go: a labelled issue and an unlabelled pull request.\<close>

definition itemIssue88 :: Item where
  "itemIssue88 =
     sample_item ''issue88'' ''Todo'' ''An example item title.'' [''deployment''] []
       (Date_UTC 738370)"

definition itemPr24 :: Item where
  "itemPr24 =
     sample_item ''id124'' ''Todo'' ''Update Something'' [] ''main'' (Date_UTC 738489)"

text \<open>An item with no field at all.\<close>

definition bare_item :: Item where
  "bare_item =
     \<lparr>ID = ''bare'', Archived = False, Fields = Map.empty, Labels = [],
      DoneAt = Date_UTC 738367, ItemType = [], Item.Number = 0, Item.URL = [],
      Item.Repo = \<lparr>Repo.Name = [], Slug = [], Repo.URL = [], Repo.Branch = []\<rparr>\<rparr>"

text \<open>
  A pull request that carries the label \<open>deployment\<close> and whose title starts with
  \<open>Update\<close>, and a section whose label rule and whose prefix rule both match it.
\<close>

definition itemBoth :: Item where
  "itemBoth =
     sample_item ''both'' ''Done'' ''Update Something'' [''deployment''] ''main''
       (Date_UTC 738367)"

definition sectionBoth :: Section where
  "sectionBoth =
     \<lparr>Section.Name = ''Deployments'', RenderOrder = 1, OmitIfEmpty = False,
      Match = \<lparr>Match.Labels = [''deployment''], Prefixes = [''Update''], Branches = []\<rparr>\<rparr>"

text \<open>
  Done items around the week from Sunday 2022-07-31 to Sunday 2022-08-07 (days 738366 to
  738373): one on Monday 2022-08-01, one on Wednesday 2022-08-03, one on Wednesday
  2022-07-20 two weeks earlier, one exactly on each of the two Sundays.
\<close>

definition item_aug1 :: Item where
  "item_aug1 = sample_item ''aug1'' ''Done'' ''Roll out'' [''deployment''] [] (Date_UTC 738367)"

definition item_aug3 :: Item where
  "item_aug3 = sample_item ''aug3'' ''done'' ''Update Something'' [] ''main'' (Date_UTC 738369)"

definition item_jul20 :: Item where
  "item_jul20 = sample_item ''jul20'' ''DONE'' ''Other'' [] [] (Date_UTC 738355)"

definition item_jul31 :: Item where
  "item_jul31 = sample_item ''jul31'' ''Done'' ''On the start'' [] [] (Date_UTC 738366)"

definition item_aug7 :: Item where
  "item_aug7 = sample_item ''aug7'' ''Done'' ''On the end'' [] [] (Date_UTC 738373)"

text \<open>
  A stand-in for package regexp on literal patterns: a pattern without metacharacters
  compiles and matches the strings that contain it, as in RE2; every other pattern is
  rejected, among them \<open>(\<close>, which \<open>regexp.Compile\<close> rejects as well. And a
  configuration whose second section has the branch pattern \<open>(\<close>.
\<close>

definition literal_Compile :: "string \<Rightarrow> string option" where
  "literal_Compile p =
     (if list_ex (\<lambda>c. c \<in> set (CHR 0x5C # ''.+*?()|[]{}^$'')) p then None else Some p)"

definition literal_MatchString :: "string \<Rightarrow> string \<Rightarrow> bool" where
  "literal_MatchString re s = (0 \<le> Index s re)"

definition sectionBad :: Section where
  "sectionBad =
     \<lparr>Section.Name = ''Bad'', RenderOrder = 2, OmitIfEmpty = False,
      Match = \<lparr>Match.Labels = [], Prefixes = [],
               Branches = [\<lparr>Org = ''org'', Branch.Repo = ''repo'', Branch.Branch = ''(''\<rparr>]\<rparr>\<rparr>"

definition cfgBad :: Config where
  "cfgBad =
     \<lparr>Unclassified = \<lparr>Unclassified.Name = ''Unclassified Items'', RenderOrder = 1000,
                       OmitIfEmpty = True\<rparr>,
      Sections = [sectionBoth, sectionBad]\<rparr>"

section \<open>Properties\<close>

subsection \<open>The queries as filters\<close>

lemma in_range_loop_filter:
  "in_range_loop list start end =
     filter (\<lambda>it. (ns (Done it) < ns end \<and> ns start < ns (Done it)) \<or> ns (Done it) = ns start) list"
  by (induction list) (auto simp: Let_def Equal_def Before_def After_def)

lemma GetInRange_filter:
  assumes "ns start \<le> ns end"
  shows "GetInRange list start end =
     filter (\<lambda>it. ns start \<le> ns (Done it) \<and> (ns (Done it) < ns end \<or> ns (Done it) = ns start)) list"
proof -
  have "\<not> After start end" using assms by (simp add: After_def)
  then have "GetInRange list start end = in_range_loop list start end"
    by (simp add: GetInRange_def)
  also have "\<dots> = filter (\<lambda>it. ns start \<le> ns (Done it) \<and>
      (ns (Done it) < ns end \<or> ns (Done it) = ns start)) list"
    unfolding in_range_loop_filter by (rule filter_cong) auto
  finally show ?thesis .
qed

lemma ExtractByLabels_filter:
  "ExtractByLabels list labels =
     (filter (\<lambda>it. list_ex (HasLabel it) labels) list,
      filter (\<lambda>it. \<not> list_ex (HasLabel it) labels) list)"
  by (induction list) (auto simp: Let_def)

lemma ExtractByPrefixes_filter:
  "ExtractByPrefixes list prefixes =
     (filter (\<lambda>it. list_ex (HasPrefix it) prefixes) list,
      filter (\<lambda>it. \<not> list_ex (HasPrefix it) prefixes) list)"
  by (induction list) (auto simp: Let_def)

lemma ExtractByBranch_filter:
  "ExtractByBranch list org repo branch =
     (filter (\<lambda>it. IsBranch it org repo branch) list,
      filter (\<lambda>it. \<not> IsBranch it org repo branch) list)"
  by (induction list) (auto simp: Let_def)

lemma ns_zeroTime [simp]: "ns zeroTime = 0"
  by (simp add: zeroTime_def)

lemma IsDone_Done: "IsDone it \<Longrightarrow> Done it = DoneAt it"
  by (auto simp: IsDone_def Done_def split: option.splits)

lemma not_IsDone_Done: "\<not> IsDone it \<Longrightarrow> Done it = zeroTime"
  by (auto simp: IsDone_def Done_def split: option.splits)

lemma weeks_loop_Nil [simp]: "weeks_loop [] start end = []"
  by (simp add: weeks_loop.simps)

lemma weeks_loop_Cons:
  "weeks_loop (x # xs) start end =
     \<lparr>Items = GetInRange (x # xs) start end, Start = start, End = end\<rparr> #
     weeks_loop (GetOlder (x # xs) start) (getPreviousSunday start) start"
  by (simp add: weeks_loop.simps)

lemma weeks_loop_items_in_pool:
  "set (concat (map Items (weeks_loop list start end))) \<subseteq> set list"
proof (induction list start "end" rule: weeks_loop.induct)
  case (1 list start "end")
  show ?case
  proof (cases list)
    case Nil
    then show ?thesis by simp
  next
    case (Cons x xs)
    have "set (GetInRange list start end) \<subseteq> set list"
      by (auto simp: GetInRange_def in_range_loop_filter)
    moreover have "set (GetOlder list start) \<subseteq> set list"
      by (auto simp: GetOlder_filter)
    moreover have "set (concat (map Items
        (weeks_loop (GetOlder list start) (getPreviousSunday start) start)))
        \<subseteq> set (GetOlder list start)"
      using "1.IH" Cons by simp
    ultimately show ?thesis
      using Cons weeks_loop_Cons [of x xs start "end"] by auto
  qed
qed

subsection \<open>Items that are not done\<close>

text \<open>
  C8. An item whose \<open>Status\<close> field is missing, is not text-typed or does not read
  \<open>done\<close> (ignoring case) is not done, its completion time is the zero time, and
  neither \<open>GetDone\<close> nor \<open>GetOlder\<close> nor any weekly window contains it; an item
  whose \<open>Title\<close> field is missing or not text-typed has the empty title. All the
  functions involved are total: a missing key is a case of the lookup, not a failure.
\<close>

theorem not_done_is_excluded:
  "((Fields it ''Status'' = None \<or>
     (\<exists>f. Fields it ''Status'' = Some f \<and> (Type f \<noteq> FIELD_TEXT \<or> ToLower (Text f) \<noteq> ''done'')))
    \<longrightarrow> \<not> IsDone it \<and> Done it = zeroTime \<and>
        it \<notin> set (GetDone list) \<and> it \<notin> set (GetOlder list when) \<and>
        it \<notin> set (concat (map Items (splitByWeeks list now)))) \<and>
   ((Fields it ''Title'' = None \<or> (\<exists>f. Fields it ''Title'' = Some f \<and> Type f \<noteq> FIELD_TEXT))
    \<longrightarrow> Item_Title it = [])"
proof (intro conjI impI)
  assume st: "Fields it ''Status'' = None \<or>
     (\<exists>f. Fields it ''Status'' = Some f \<and> (Type f \<noteq> FIELD_TEXT \<or> ToLower (Text f) \<noteq> ''done''))"
  then show nd: "\<not> IsDone it"
    by (auto simp: IsDone_def)
  then show z: "Done it = zeroTime"
    by (rule not_IsDone_Done)
  from nd show "it \<notin> set (GetDone list)"
    by (simp add: GetDone_def)
  from z show older: "it \<notin> set (GetOlder list when)"
    by (simp add: GetOlder_filter)
  have "set (concat (map Items (splitByWeeks list now)))
        \<subseteq> set (GetOlder (sort_key (\<lambda>it. ns (DoneAt it)) list) (getClosestSunday now))"
    unfolding splitByWeeks_def Let_def by (rule weeks_loop_items_in_pool)
  moreover from z have "it \<notin> set (GetOlder (sort_key (\<lambda>it. ns (DoneAt it)) list) (getClosestSunday now))"
    by (simp add: GetOlder_filter)
  ultimately show "it \<notin> set (concat (map Items (splitByWeeks list now)))"
    by blast
next
  assume "Fields it ''Title'' = None \<or> (\<exists>f. Fields it ''Title'' = Some f \<and> Type f \<noteq> FIELD_TEXT)"
  then show "Item_Title it = []"
    by (auto simp: Item_Title_def)
qed

theorem not_done_is_excluded_witness:
  "Fields bare_item ''Status'' = None \<and> Fields bare_item ''Title'' = None \<and>
   \<not> IsDone bare_item \<and> Done bare_item = zeroTime \<and>
   bare_item \<notin> set (GetDone [bare_item, itemIssue88]) \<and>
   bare_item \<notin> set (GetOlder [bare_item, itemIssue88] (Date_UTC 738373)) \<and>
   bare_item \<notin> set (concat (map Items (splitByWeeks [bare_item, itemIssue88] (Date_UTC 738373)))) \<and>
   Item_Title bare_item = []"
proof -
  have s: "Fields bare_item ''Status'' = None" and t: "Fields bare_item ''Title'' = None"
    by (simp_all add: bare_item_def)
  from not_done_is_excluded [of bare_item "[bare_item, itemIssue88]" "Date_UTC 738373"
      "Date_UTC 738373"] s t
  show ?thesis by blast
qed

subsection \<open>Branch rules\<close>

text \<open>
  C7. An item whose repository slug is empty or whose branch is empty matches no branch
  rule, whatever the org, repo and branch patterns; when both are present the item
  matches exactly when the slug matches the pattern \<open>org/repo\<close> and the branch matches
  the branch pattern.
\<close>

theorem IsBranch_needs_slug_and_branch:
  "((Slug (Item.Repo it) = [] \<or> Repo.Branch (Item.Repo it) = [])
      \<longrightarrow> \<not> IsBranch it org repo branch) \<and>
   ((Slug (Item.Repo it) \<noteq> [] \<and> Repo.Branch (Item.Repo it) \<noteq> [])
      \<longrightarrow> IsBranch it org repo branch =
          (Glob (TrimSpace org @ ''/'' @ TrimSpace repo) (TrimSpace (Slug (Item.Repo it))) \<and>
           Glob (TrimSpace branch) (TrimSpace (Repo.Branch (Item.Repo it)))))"
  by (auto simp: IsBranch_def Let_def)

lemma TrimSpace_samples:
  "TrimSpace ''*'' = ''*''" "TrimSpace ''org/repo'' = ''org/repo''"
  "TrimSpace ''main'' = ''main''" "TrimSpace ''no-match'' = ''no-match''"
  "TrimSpace ''deployment'' = ''deployment''" "TrimSpace ''Deployment'' = ''Deployment''"
  by (simp_all add: TrimSpace_def isSpace_def)

lemma Glob_star [simp]: "Glob ''*'' subj"
  by (simp add: Glob_def)

lemma Glob_samples:
  "Glob ''*/*'' ''org/repo''" "\<not> Glob ''no-match/*'' ''org/repo''"
  by (simp_all add: Glob_def HasPrefix_str_def HasSuffix_str_def Let_def)

theorem IsBranch_needs_slug_and_branch_witness:
  "Repo.Branch (Item.Repo itemIssue88) = [] \<and> \<not> IsBranch itemIssue88 ''*'' ''*'' ''*'' \<and>
   Slug (Item.Repo itemPr24) \<noteq> [] \<and> Repo.Branch (Item.Repo itemPr24) \<noteq> [] \<and>
   IsBranch itemPr24 ''*'' ''*'' ''*'' \<and> \<not> IsBranch itemPr24 ''no-match'' ''*'' ''*''"
proof -
  have a: "Repo.Branch (Item.Repo itemIssue88) = []"
    by (simp add: itemIssue88_def sample_item_def)
  have b: "Slug (Item.Repo itemPr24) = ''org/repo''" "Repo.Branch (Item.Repo itemPr24) = ''main''"
    by (simp_all add: itemPr24_def sample_item_def)
  from IsBranch_needs_slug_and_branch [of itemIssue88 "''*''" "''*''" "''*''"] a
  have 1: "\<not> IsBranch itemIssue88 ''*'' ''*'' ''*''" by simp
  from IsBranch_needs_slug_and_branch [of itemPr24 "''*''" "''*''" "''*''"] b
  have 2: "IsBranch itemPr24 ''*'' ''*'' ''*''"
    by (simp add: TrimSpace_samples Glob_samples)
  from IsBranch_needs_slug_and_branch [of itemPr24 "''no-match''" "''*''" "''*''"] b
  have 3: "\<not> IsBranch itemPr24 ''no-match'' ''*'' ''*''"
    by (simp add: TrimSpace_samples Glob_samples)
  from a b 1 2 3 show ?thesis by simp
qed

subsection \<open>Label rules\<close>

lemma Split_star_no_star: "CHR ''*'' \<notin> set p \<Longrightarrow> Split_star p = [p]"
  by (induction p) auto

lemma Glob_no_star: "CHR ''*'' \<notin> set p \<Longrightarrow> Glob p subj = (subj = p)"
  by (cases "p = []") (auto simp: Glob_def Split_star_no_star)

text \<open>
  C5, as the code has it. The label pattern \<open>*\<close> matches every item that carries at least
  one label, whatever the labels are; an item without labels matches no label pattern,
  not even \<open>*\<close>; and a pattern without a star matches exactly when it equals one of the
  item's labels after trimming, byte for byte, so upper and lower case are told apart.
\<close>

theorem HasLabel_glob:
  "(Item.Labels it \<noteq> [] \<longrightarrow> HasLabel it ''*'') \<and>
   (Item.Labels it = [] \<longrightarrow> \<not> HasLabel it l) \<and>
   (CHR ''*'' \<notin> set (TrimSpace l) \<longrightarrow>
      HasLabel it l = (TrimSpace l \<in> TrimSpace ` set (Item.Labels it)))"
proof (intro conjI impI)
  assume "Item.Labels it \<noteq> []"
  then show "HasLabel it ''*''"
    by (cases "Item.Labels it") (simp_all add: HasLabel_def TrimSpace_samples)
next
  assume "Item.Labels it = []"
  then show "\<not> HasLabel it l"
    by (simp add: HasLabel_def)
next
  assume "CHR ''*'' \<notin> set (TrimSpace l)"
  then have "HasLabel it l = (\<exists>label \<in> set (Item.Labels it). TrimSpace label = TrimSpace l)"
    by (simp add: HasLabel_def Let_def list_ex_iff Glob_no_star)
  also have "\<dots> = (TrimSpace l \<in> TrimSpace ` set (Item.Labels it))"
    by (metis image_iff)
  finally show "HasLabel it l = (TrimSpace l \<in> TrimSpace ` set (Item.Labels it))" .
qed

theorem HasLabel_glob_witness:
  "Item.Labels itemIssue88 \<noteq> [] \<and> HasLabel itemIssue88 ''*'' \<and>
   Item.Labels itemPr24 = [] \<and> \<not> HasLabel itemPr24 ''deployment'' \<and>
   CHR ''*'' \<notin> set (TrimSpace ''deployment'') \<and> HasLabel itemIssue88 ''deployment''"
proof -
  have a: "Item.Labels itemIssue88 = [''deployment'']" and b: "Item.Labels itemPr24 = []"
    by (simp_all add: itemIssue88_def itemPr24_def sample_item_def)
  have c: "CHR ''*'' \<notin> set (TrimSpace ''deployment'')"
    by (simp add: TrimSpace_samples)
  from HasLabel_glob [of itemIssue88 "''deployment''"] a c
  have 1: "HasLabel itemIssue88 ''*''" and 2: "HasLabel itemIssue88 ''deployment''"
    by (simp_all add: TrimSpace_samples)
  from HasLabel_glob [of itemPr24 "''deployment''"] b
  have 3: "\<not> HasLabel itemPr24 ''deployment''" by simp
  from a b c 1 2 3 show ?thesis by simp
qed

text \<open>
  The claim as the specification words it fails twice: the unlabelled pull request is not
  matched by \<open>*\<close> (config\_test.go, "extract by label glob", expects it to be left
  over), and the pattern \<open>deployment\<close> does not match the label \<open>Deployment\<close>.
\<close>

theorem HasLabel_counterexample:
  "\<not> HasLabel itemPr24 ''*'' \<and>
   \<not> HasLabel (sample_item ''i1'' ''Done'' ''t'' [''Deployment''] [] (Date_UTC 738367)) ''deployment''"
  by (simp add: HasLabel_def itemPr24_def sample_item_def TrimSpace_samples Glob_no_star)

subsection \<open>Sections partition their input\<close>

lemma extract_branches_shape:
  "\<exists>extra. fst (extract_branches bs mine left) = mine @ extra \<and>
     mset extra + mset (snd (extract_branches bs mine left)) = mset left"
proof (induction bs arbitrary: mine left)
  case Nil
  show ?case by simp
next
  case (Cons b bs)
  let ?P = "\<lambda>it. IsBranch it (Org b) (Branch.Repo b) (Branch.Branch b)"
  let ?tmp = "filter ?P left" and ?left = "filter (\<lambda>it. \<not> ?P it) left"
  have step: "extract_branches (b # bs) mine left = extract_branches bs (mine @ ?tmp) ?left"
    by (simp add: ExtractByBranch_filter)
  from Cons.IH [of "mine @ ?tmp" ?left] obtain extra where
    e: "fst (extract_branches bs (mine @ ?tmp) ?left) = (mine @ ?tmp) @ extra"
       "mset extra + mset (snd (extract_branches bs (mine @ ?tmp) ?left)) = mset ?left"
    by blast
  have "mset (?tmp @ extra) + mset (snd (extract_branches bs (mine @ ?tmp) ?left)) = mset left"
    using e(2) by (simp add: add.assoc)
  with e(1) step show ?case by auto
qed

lemma Extract_unfold:
  "Extract s list =
     extract_branches (Branches (Match s))
       (fst (ExtractByLabels list (Match.Labels (Match s))) @
        fst (ExtractByPrefixes (snd (ExtractByLabels list (Match.Labels (Match s))))
               (Prefixes (Match s))))
       (snd (ExtractByPrefixes (snd (ExtractByLabels list (Match.Labels (Match s))))
               (Prefixes (Match s))))"
  by (simp add: Extract_def Let_def split: prod.splits)

lemma Extract_mset:
  "mset (fst (Extract s list)) + mset (snd (Extract s list)) = mset list"
proof -
  let ?l1 = "snd (ExtractByLabels list (Match.Labels (Match s)))"
  let ?m1 = "fst (ExtractByLabels list (Match.Labels (Match s)))"
  let ?l2 = "snd (ExtractByPrefixes ?l1 (Prefixes (Match s)))"
  let ?m2 = "fst (ExtractByPrefixes ?l1 (Prefixes (Match s)))"
  have eq: "Extract s list = extract_branches (Branches (Match s)) (?m1 @ ?m2) ?l2"
    by (rule Extract_unfold)
  have "\<exists>extra. fst (Extract s list) = (?m1 @ ?m2) @ extra \<and>
      mset extra + mset (snd (Extract s list)) = mset ?l2"
    unfolding eq by (rule extract_branches_shape)
  then obtain extra where
    e: "fst (Extract s list) = (?m1 @ ?m2) @ extra"
       "mset extra + mset (snd (Extract s list)) = mset ?l2"
    by (elim exE conjE)
  have a: "mset ?m1 + mset ?l1 = mset list"
    by (simp add: ExtractByLabels_filter)
  have b: "mset ?m2 + mset ?l2 = mset ?l1"
    by (simp add: ExtractByPrefixes_filter)
  have "mset (fst (Extract s list)) + mset (snd (Extract s list))
        = mset ?m1 + (mset ?m2 + (mset extra + mset (snd (Extract s list))))"
    using e(1) by (simp add: add.assoc)
  also have "\<dots> = mset list"
    using e(2) a b by simp
  finally show ?thesis .
qed

text \<open>
  C3. Chaining \<open>Section.Extract\<close> over the sections, each on what the one before left,
  gives one bucket per section and a final rest; the buckets and the rest together hold
  exactly the items of the input, each as often as the input has it.
\<close>

theorem extract_chain_partition:
  "mset (concat (fst (extract_chain ss L)) @ snd (extract_chain ss L)) = mset L \<and>
   length (fst (extract_chain ss L)) = length ss"
proof (induction ss arbitrary: L)
  case Nil
  show ?case by simp
next
  case (Cons s ss)
  let ?mine = "fst (Extract s L)" and ?left = "snd (Extract s L)"
  have step: "extract_chain (s # ss) L =
      (?mine # fst (extract_chain ss ?left), snd (extract_chain ss ?left))"
    by (simp add: Let_def split: prod.splits)
  have "mset (concat (fst (extract_chain ss ?left)) @ snd (extract_chain ss ?left)) = mset ?left"
    and len: "length (fst (extract_chain ss ?left)) = length ss"
    using Cons.IH [of ?left] by simp_all
  then have "mset (concat (?mine # fst (extract_chain ss ?left)) @ snd (extract_chain ss ?left))
      = mset ?mine + mset ?left"
    by simp
  also have "\<dots> = mset L" by (rule Extract_mset)
  finally show ?case using step len by simp
qed

subsection \<open>The label family comes first\<close>

lemma extract_branches_subset:
  "set (fst (extract_branches bs [] left)) \<subseteq> set left"
proof -
  obtain extra where
    e1: "fst (extract_branches bs [] left) = [] @ extra" and
    e2: "mset extra + mset (snd (extract_branches bs [] left)) = mset left"
    using extract_branches_shape [of bs "[]" left] by blast
  have "set_mset (mset extra + mset (snd (extract_branches bs [] left))) = set_mset (mset left)"
    by (simp only: e2)
  then have "set extra \<union> set (snd (extract_branches bs [] left)) = set left"
    by simp
  with e1 show ?thesis by auto
qed

lemma extract_branches_acc:
  "fst (extract_branches bs mine left) = mine @ fst (extract_branches bs [] left)"
proof (induction bs arbitrary: mine left)
  case Nil
  show ?case by simp
next
  case (Cons b bs)
  let ?P = "\<lambda>it. IsBranch it (Org b) (Branch.Repo b) (Branch.Branch b)"
  let ?tmp = "filter ?P left" and ?left = "filter (\<lambda>it. \<not> ?P it) left"
  have "fst (extract_branches (b # bs) mine left) = fst (extract_branches bs (mine @ ?tmp) ?left)"
    by (simp add: ExtractByBranch_filter)
  also have "\<dots> = (mine @ ?tmp) @ fst (extract_branches bs [] ?left)"
    by (rule Cons.IH)
  also have "\<dots> = mine @ fst (extract_branches bs ?tmp ?left)"
    using Cons.IH [of ?tmp ?left] by simp
  also have "\<dots> = mine @ fst (extract_branches (b # bs) [] left)"
    by (simp add: ExtractByBranch_filter)
  finally show ?case .
qed

text \<open>
  C4. Within one section the three families run in the order labels, prefixes, branches,
  each on what the one before left over. An item of the input that matches a label rule
  of the section lands in the label part of the section's items, is gone from the pool the
  prefix and branch rules see, and so occurs in the section's items exactly as often as
  in the input (once, when the input has it once), whether or not a prefix or branch rule
  would match it too; it is never left over.
\<close>

theorem label_family_first:
  assumes "it \<in> set list" and "list_ex (HasLabel it) (Match.Labels (Match s))"
  shows "fst (Extract s list) =
           fst (ExtractByLabels list (Match.Labels (Match s))) @
           fst (ExtractByPrefixes (snd (ExtractByLabels list (Match.Labels (Match s))))
                  (Prefixes (Match s))) @
           fst (extract_branches (Branches (Match s)) []
                  (snd (ExtractByPrefixes (snd (ExtractByLabels list (Match.Labels (Match s))))
                          (Prefixes (Match s))))) \<and>
         it \<in> set (fst (ExtractByLabels list (Match.Labels (Match s)))) \<and>
         it \<notin> set (snd (ExtractByLabels list (Match.Labels (Match s)))) \<and>
         it \<notin> set (fst (ExtractByPrefixes (snd (ExtractByLabels list (Match.Labels (Match s))))
                          (Prefixes (Match s)))) \<and>
         it \<notin> set (fst (extract_branches (Branches (Match s)) []
                  (snd (ExtractByPrefixes (snd (ExtractByLabels list (Match.Labels (Match s))))
                          (Prefixes (Match s)))))) \<and>
         count (mset (fst (Extract s list))) it = count (mset list) it \<and>
         it \<notin> set (snd (Extract s list))"
proof -
  let ?P = "\<lambda>it. list_ex (HasLabel it) (Match.Labels (Match s))"
  let ?m1 = "fst (ExtractByLabels list (Match.Labels (Match s)))"
  let ?l1 = "snd (ExtractByLabels list (Match.Labels (Match s)))"
  let ?m2 = "fst (ExtractByPrefixes ?l1 (Prefixes (Match s)))"
  let ?l2 = "snd (ExtractByPrefixes ?l1 (Prefixes (Match s)))"
  let ?m3 = "fst (extract_branches (Branches (Match s)) [] ?l2)"
  have shape: "fst (Extract s list) = ?m1 @ ?m2 @ ?m3"
    unfolding Extract_unfold by (subst extract_branches_acc) simp
  have m1: "?m1 = filter ?P list" and l1: "?l1 = filter (\<lambda>it. \<not> ?P it) list"
    by (simp_all add: ExtractByLabels_filter)
  have in1: "it \<in> set ?m1" using assms m1 by simp
  have out1: "it \<notin> set ?l1" using assms l1 by simp
  have "set ?m2 \<subseteq> set ?l1" by (auto simp: ExtractByPrefixes_filter)
  with out1 have out2: "it \<notin> set ?m2" by blast
  have "set ?l2 \<subseteq> set ?l1" by (auto simp: ExtractByPrefixes_filter)
  with extract_branches_subset [of "Branches (Match s)" ?l2] out1
  have out3: "it \<notin> set ?m3" by blast
  have "count (mset (fst (Extract s list))) it = count (mset ?m1) it"
    using shape out2 out3 by (simp add: count_eq_zero_iff)
  also have "\<dots> = count (mset list) it"
    using assms(2) m1 by simp
  finally have cnt: "count (mset (fst (Extract s list))) it = count (mset list) it" .
  have "count (mset (fst (Extract s list))) it + count (mset (snd (Extract s list))) it
        = count (mset list) it"
    using arg_cong [OF Extract_mset [of s list], of "\<lambda>M. count M it"] by simp
  with cnt have "count (mset (snd (Extract s list))) it = 0"
    by simp
  then have "it \<notin> set (snd (Extract s list))"
    by (simp add: count_eq_zero_iff)
  with shape in1 out1 out2 out3 cnt show ?thesis by blast
qed

lemma itemBoth_matches:
  "list_ex (HasLabel itemBoth) (Match.Labels (Match sectionBoth))"
  "list_ex (HasPrefix itemBoth) (Prefixes (Match sectionBoth))"
proof -
  have "TrimSpace ''Update'' = ''Update''" "TrimSpace ''Update Something'' = ''Update Something''"
    by (simp_all add: TrimSpace_def isSpace_def)
  moreover have "Glob ''Update*'' ''Update Something''"
    by (simp add: Glob_def HasPrefix_str_def HasSuffix_str_def Let_def)
  ultimately show "list_ex (HasPrefix itemBoth) (Prefixes (Match sectionBoth))"
    by (simp add: sectionBoth_def itemBoth_def sample_item_def text_field_def HasPrefix_def
        Item_Title_def)
  show "list_ex (HasLabel itemBoth) (Match.Labels (Match sectionBoth))"
    by (simp add: sectionBoth_def itemBoth_def sample_item_def HasLabel_def TrimSpace_samples
        Glob_no_star)
qed

theorem label_family_first_witness:
  "itemBoth \<in> set [itemPr24, itemBoth] \<and>
   list_ex (HasLabel itemBoth) (Match.Labels (Match sectionBoth)) \<and>
   list_ex (HasPrefix itemBoth) (Prefixes (Match sectionBoth)) \<and>
   itemBoth \<in> set (fst (ExtractByLabels [itemPr24, itemBoth] (Match.Labels (Match sectionBoth)))) \<and>
   itemBoth \<notin> set (fst (ExtractByPrefixes
        (snd (ExtractByLabels [itemPr24, itemBoth] (Match.Labels (Match sectionBoth))))
        (Prefixes (Match sectionBoth)))) \<and>
   count (mset (fst (Extract sectionBoth [itemPr24, itemBoth]))) itemBoth
     = count (mset [itemPr24, itemBoth]) itemBoth \<and>
   itemBoth \<notin> set (snd (Extract sectionBoth [itemPr24, itemBoth]))"
proof -
  have m: "itemBoth \<in> set [itemPr24, itemBoth]" by simp
  from label_family_first [OF m itemBoth_matches(1)] m itemBoth_matches
  show ?thesis by blast
qed

subsection \<open>The loop of splitByWeeks\<close>

lemma DAY_pos: "0 < DAY"
  by (simp add: DAY_def)

lemma ns_getPreviousSunday: "ns (getPreviousSunday t) = ns t - 7 * DAY"
  by (simp add: getPreviousSunday_def AddDate_days_def)

lemma mset_filter_split:
  assumes "\<forall>x\<in>set xs. (R x \<longleftrightarrow> P x \<or> Q x) \<and> \<not> (P x \<and> Q x)"
  shows "mset (filter P xs) + mset (filter Q xs) = mset (filter R xs)"
  using assms by (induction xs) auto

lemma weeks_loop_mset:
  assumes "\<forall>it\<in>set list. ns (Done it) \<noteq> 0" and "ns start < ns end"
  shows "mset (concat (map Items (weeks_loop list start end)))
         = mset (filter (\<lambda>it. ns (Done it) < ns end) list)"
  using assms
proof (induction list start "end" rule: weeks_loop.induct)
  case (1 list start "end")
  show ?case
  proof (cases list)
    case Nil
    then show ?thesis by simp
  next
    case (Cons x xs)
    let ?pool = "GetOlder list start"
    let ?rest = "weeks_loop ?pool (getPreviousSunday start) start"
    have nz: "\<forall>it\<in>set ?pool. ns (Done it) \<noteq> 0"
      by (simp add: GetOlder_filter)
    have lt: "ns (getPreviousSunday start) < ns start"
      using DAY_pos by (simp add: ns_getPreviousSunday)
    have IH: "mset (concat (map Items ?rest)) = mset (filter (\<lambda>it. ns (Done it) < ns start) ?pool)"
      using "1.IH" Cons nz lt by simp
    have first: "GetInRange list start end =
        filter (\<lambda>it. ns start \<le> ns (Done it) \<and> (ns (Done it) < ns end \<or> ns (Done it) = ns start)) list"
      using "1.prems"(2) by (simp add: GetInRange_filter)
    have rest: "filter (\<lambda>it. ns (Done it) < ns start) ?pool
        = filter (\<lambda>it. ns (Done it) < ns start) list"
      unfolding GetOlder_filter filter_filter using "1.prems"(1) by (intro filter_cong) auto
    have "mset (concat (map Items (weeks_loop list start end)))
        = mset (GetInRange list start end) + mset (concat (map Items ?rest))"
      using Cons weeks_loop_Cons [of x xs start "end"] by simp
    also have "\<dots> = mset (filter (\<lambda>it. ns start \<le> ns (Done it) \<and>
          (ns (Done it) < ns end \<or> ns (Done it) = ns start)) list)
        + mset (filter (\<lambda>it. ns (Done it) < ns start) list)"
      using IH first rest by simp
    also have "\<dots> = mset (filter (\<lambda>it. ns (Done it) < ns end) list)"
      using "1.prems"(2) by (intro mset_filter_split) auto
    finally show ?thesis .
  qed
qed

lemma weeks_loop_items_before:
  assumes "\<forall>it\<in>set list. ns (Done it) \<noteq> 0" and "ns start < ns end"
  shows "set (concat (map Items (weeks_loop list start end)))
         \<subseteq> {it \<in> set list. ns (Done it) < ns end}"
proof -
  have "set_mset (mset (concat (map Items (weeks_loop list start end))))
        = set_mset (mset (filter (\<lambda>it. ns (Done it) < ns end) list))"
    by (simp only: weeks_loop_mset [OF assms])
  then show ?thesis by auto
qed

lemma weeks_loop_once:
  assumes "\<forall>it\<in>set list. ns (Done it) \<noteq> 0" and "ns start < ns end"
    and "it \<in> set list" and "ns (Done it) < ns end"
  shows "length (filter (\<lambda>w. it \<in> set (Items w)) (weeks_loop list start end)) = 1"
  using assms
proof (induction list start "end" rule: weeks_loop.induct)
  case (1 list start "end")
  from "1.prems"(3) obtain x xs where Cons: "list = x # xs"
    by (cases list) auto
  let ?pool = "GetOlder list start"
  let ?rest = "weeks_loop ?pool (getPreviousSunday start) start"
  have nz: "\<forall>it\<in>set ?pool. ns (Done it) \<noteq> 0"
    by (simp add: GetOlder_filter)
  have lt: "ns (getPreviousSunday start) < ns start"
    using DAY_pos by (simp add: ns_getPreviousSunday)
  have first: "GetInRange list start end =
      filter (\<lambda>it. ns start \<le> ns (Done it) \<and> (ns (Done it) < ns end \<or> ns (Done it) = ns start)) list"
    using "1.prems"(2) by (simp add: GetInRange_filter)
  have unfold: "weeks_loop list start end =
      \<lparr>Items = GetInRange list start end, Start = start, End = end\<rparr> # ?rest"
    using Cons weeks_loop_Cons [of x xs start "end"] by simp
  show ?case
  proof (cases "ns start \<le> ns (Done it)")
    case True
    then have in_first: "it \<in> set (GetInRange list start end)"
      using first "1.prems"(3,4) by simp
    have "set (concat (map Items ?rest)) \<subseteq> {x \<in> set ?pool. ns (Done x) < ns start}"
      by (rule weeks_loop_items_before [OF nz lt])
    then have "\<forall>w\<in>set ?rest. it \<notin> set (Items w)"
      using True by auto
    then have "filter (\<lambda>w. it \<in> set (Items w)) ?rest = []"
      by (simp add: filter_empty_conv)
    with in_first unfold show ?thesis by simp
  next
    case False
    then have not_first: "it \<notin> set (GetInRange list start end)"
      using first by simp
    have "it \<in> set ?pool"
      using False "1.prems"(1,3) by (simp add: GetOlder_filter)
    moreover have "ns (Done it) < ns start"
      using False by simp
    ultimately have "length (filter (\<lambda>w. it \<in> set (Items w)) ?rest) = 1"
      using "1.IH" Cons nz lt by simp
    with not_first unfold show ?thesis by simp
  qed
qed

lemma weeks_loop_chain:
  "Suc k < length (weeks_loop list start end) \<Longrightarrow>
   End (weeks_loop list start end ! Suc k) = Start (weeks_loop list start end ! k)"
proof (induction k arbitrary: list start "end")
  case 0
  then obtain x xs where Cons: "list = x # xs"
    by (cases list) auto
  let ?pool = "GetOlder list start"
  have unfold: "weeks_loop list start end =
      \<lparr>Items = GetInRange list start end, Start = start, End = end\<rparr> #
      weeks_loop ?pool (getPreviousSunday start) start"
    using Cons weeks_loop_Cons [of x xs start "end"] by simp
  with 0 obtain y ys where pool: "?pool = y # ys"
    by (cases ?pool) auto
  show ?case
    unfolding unfold pool by (simp add: weeks_loop_Cons)
next
  case (Suc k)
  then obtain x xs where Cons: "list = x # xs"
    by (cases list) auto
  have unfold: "weeks_loop list start end =
      \<lparr>Items = GetInRange list start end, Start = start, End = end\<rparr> #
      weeks_loop (GetOlder list start) (getPreviousSunday start) start"
    using Cons weeks_loop_Cons [of x xs start "end"] by simp
  from Suc.prems have "Suc k < length (weeks_loop (GetOlder list start) (getPreviousSunday start) start)"
    unfolding unfold by simp
  from Suc.IH [OF this] show ?case
    unfolding unfold by simp
qed

text \<open>
  The \<open>k\<close>-th window of the loop, when every pool item is at or before \<open>end\<close> and the
  window is seven days long: it exists exactly when some pool item is at or before its
  upper edge, and it holds the pool items of its half-open span.
\<close>

lemma weeks_loop_nth:
  assumes "\<forall>it\<in>set list. ns (Done it) \<noteq> 0 \<and> ns (Done it) \<le> ns end"
    and "ns start = ns end - 7 * DAY"
  shows "(k < length (weeks_loop list start end)
            \<longleftrightarrow> (\<exists>it\<in>set list. ns (Done it) \<le> ns end - int k * (7 * DAY))) \<and>
         (k < length (weeks_loop list start end) \<longrightarrow>
            ns (End (weeks_loop list start end ! k)) = ns end - int k * (7 * DAY) \<and>
            ns (Start (weeks_loop list start end ! k)) = ns end - (int k + 1) * (7 * DAY) \<and>
            Items (weeks_loop list start end ! k) =
              filter (\<lambda>it. ns end - (int k + 1) * (7 * DAY) \<le> ns (Done it) \<and>
                           ns (Done it) < ns end - int k * (7 * DAY)) list)"
  using assms
proof (induction k arbitrary: list start "end")
  case 0
  show ?case
  proof (cases list)
    case Nil
    then show ?thesis by simp
  next
    case (Cons x xs)
    have le: "ns start \<le> ns end" and lt: "ns start < ns end"
      using "0.prems"(2) DAY_pos by simp_all
    have "GetInRange list start end =
        filter (\<lambda>it. ns start \<le> ns (Done it) \<and> (ns (Done it) < ns end \<or> ns (Done it) = ns start)) list"
      using le by (rule GetInRange_filter)
    also have "\<dots> = filter (\<lambda>it. ns end - (int 0 + 1) * (7 * DAY) \<le> ns (Done it) \<and>
        ns (Done it) < ns end - int 0 * (7 * DAY)) list"
      using "0.prems"(2) lt by (intro filter_cong) auto
    finally have items: "GetInRange list start end =
        filter (\<lambda>it. ns end - (int 0 + 1) * (7 * DAY) \<le> ns (Done it) \<and>
          ns (Done it) < ns end - int 0 * (7 * DAY)) list" .
    have ex: "\<exists>it\<in>set list. ns (Done it) \<le> ns end - int 0 * (7 * DAY)"
      using Cons "0.prems"(1) by auto
    show ?thesis
      using Cons weeks_loop_Cons [of x xs start "end"] items ex "0.prems"(2) by simp
  qed
next
  case (Suc k)
  define W where "W = 7 * DAY"
  have Wpos: "0 < W" using DAY_pos by (simp add: W_def)
  have kW: "0 \<le> int k * W" using Wpos by simp
  have SkW: "int (Suc k) * W = int k * W + W"
    by (simp add: distrib_right)
  show ?case
  proof (cases list)
    case Nil
    then show ?thesis by simp
  next
    case (Cons x xs)
    let ?pool = "GetOlder list start"
    let ?prev = "getPreviousSunday start"
    let ?rest = "weeks_loop ?pool ?prev start"
    have unfold: "weeks_loop list start end =
        \<lparr>Items = GetInRange list start end, Start = start, End = end\<rparr> # ?rest"
      using Cons weeks_loop_Cons [of x xs start "end"] by simp
    have start: "ns start = ns end - W"
      using Suc.prems(2) by (simp add: W_def)
    have pool: "\<forall>it\<in>set ?pool. ns (Done it) \<noteq> 0 \<and> ns (Done it) \<le> ns start"
      by (simp add: GetOlder_filter)
    have prev: "ns ?prev = ns start - 7 * DAY"
      by (rule ns_getPreviousSunday)
    note IH = Suc.IH [OF pool prev, folded W_def]
    have len: "(Suc k < length (weeks_loop list start end)) = (k < length ?rest)"
      unfolding unfold by simp
    have nth: "weeks_loop list start end ! Suc k = ?rest ! k"
      unfolding unfold by simp
    have edges: "ns start - int k * W = ns end - int (Suc k) * W"
      "ns start - (int k + 1) * W = ns end - (int (Suc k) + 1) * W"
      using start SkW by (simp_all only: distrib_right)
    have ex: "(\<exists>it\<in>set ?pool. ns (Done it) \<le> ns start - int k * W)
        = (\<exists>it\<in>set list. ns (Done it) \<le> ns end - int (Suc k) * W)"
    proof
      assume "\<exists>it\<in>set ?pool. ns (Done it) \<le> ns start - int k * W"
      then obtain it where "it \<in> set list" "ns (Done it) \<le> ns start - int k * W"
        by (auto simp: GetOlder_filter)
      then show "\<exists>it\<in>set list. ns (Done it) \<le> ns end - int (Suc k) * W"
        unfolding edges(1) by blast
    next
      assume "\<exists>it\<in>set list. ns (Done it) \<le> ns end - int (Suc k) * W"
      then obtain it where it: "it \<in> set list" "ns (Done it) \<le> ns start - int k * W"
        unfolding edges(1) [symmetric] by blast
      then have "ns (Done it) \<le> ns start" using kW by linarith
      moreover have "ns (Done it) \<noteq> 0" using Suc.prems(1) it(1) by blast
      ultimately have "it \<in> set ?pool" using it(1) by (simp add: GetOlder_filter)
      with it(2) show "\<exists>it\<in>set ?pool. ns (Done it) \<le> ns start - int k * W"
        by blast
    qed
    have items: "filter (\<lambda>it. ns start - (int k + 1) * W \<le> ns (Done it) \<and>
          ns (Done it) < ns start - int k * W) ?pool
        = filter (\<lambda>it. ns start - (int k + 1) * W \<le> ns (Done it) \<and>
          ns (Done it) < ns start - int k * W) list"
      unfolding GetOlder_filter filter_filter
    proof (rule filter_cong [OF refl])
      fix it assume "it \<in> set list"
      then have "ns (Done it) \<noteq> 0" using Suc.prems(1) by blast
      moreover have "ns (Done it) < ns start - int k * W \<Longrightarrow> ns (Done it) \<le> ns start"
        using kW by linarith
      ultimately show "((ns (Done it) \<noteq> 0 \<and> ns (Done it) \<le> ns start) \<and>
          ns start - (int k + 1) * W \<le> ns (Done it) \<and> ns (Done it) < ns start - int k * W)
        = (ns start - (int k + 1) * W \<le> ns (Done it) \<and> ns (Done it) < ns start - int k * W)"
        by blast
    qed
    from IH have IH1: "(k < length ?rest) = (\<exists>it\<in>set ?pool. ns (Done it) \<le> ns start - int k * W)"
      and IH2: "k < length ?rest \<Longrightarrow>
        ns (End (?rest ! k)) = ns start - int k * W \<and>
        ns (Start (?rest ! k)) = ns start - (int k + 1) * W \<and>
        Items (?rest ! k) = filter (\<lambda>it. ns start - (int k + 1) * W \<le> ns (Done it) \<and>
          ns (Done it) < ns start - int k * W) ?pool"
      by blast+
    have A: "(Suc k < length (weeks_loop list start end))
        = (\<exists>it\<in>set list. ns (Done it) \<le> ns end - int (Suc k) * W)"
      unfolding len IH1 ex ..
    have B: "ns (End (weeks_loop list start end ! Suc k)) = ns end - int (Suc k) * W \<and>
        ns (Start (weeks_loop list start end ! Suc k)) = ns end - (int (Suc k) + 1) * W \<and>
        Items (weeks_loop list start end ! Suc k) =
          filter (\<lambda>it. ns end - (int (Suc k) + 1) * W \<le> ns (Done it) \<and>
            ns (Done it) < ns end - int (Suc k) * W) list"
      if "Suc k < length (weeks_loop list start end)"
    proof -
      from that have "k < length ?rest" unfolding len .
      from IH2 [OF this] have "ns (End (?rest ! k)) = ns start - int k * W \<and>
          ns (Start (?rest ! k)) = ns start - (int k + 1) * W \<and>
          Items (?rest ! k) = filter (\<lambda>it. ns start - (int k + 1) * W \<le> ns (Done it) \<and>
            ns (Done it) < ns start - int k * W) list"
        unfolding items .
      then show ?thesis
        unfolding nth edges .
    qed
    from A B show ?thesis
      unfolding W_def by blast
  qed
qed

subsection \<open>splitByWeeks\<close>

lemma splitByWeeks_loop:
  "splitByWeeks list now =
     weeks_loop (GetOlder (sort_key (\<lambda>it. ns (DoneAt it)) list) (getClosestSunday now))
       (getPreviousSunday (getClosestSunday now)) (getClosestSunday now)"
  by (simp add: splitByWeeks_def Let_def)

lemma splitByWeeks_mset:
  "mset (concat (map Items (splitByWeeks list now)))
   = mset (filter (\<lambda>it. ns (Done it) \<noteq> 0 \<and> ns (Done it) < ns (getClosestSunday now)) list)"
proof -
  let ?sorted = "sort_key (\<lambda>it. ns (DoneAt it)) list"
  let ?end = "getClosestSunday now"
  let ?pool = "GetOlder ?sorted ?end"
  have nz: "\<forall>it\<in>set ?pool. ns (Done it) \<noteq> 0"
    by (simp add: GetOlder_filter)
  have lt: "ns (getPreviousSunday ?end) < ns ?end"
    using DAY_pos by (simp add: ns_getPreviousSunday)
  have "mset (concat (map Items (splitByWeeks list now)))
      = mset (filter (\<lambda>it. ns (Done it) < ns ?end) ?pool)"
    unfolding splitByWeeks_loop by (rule weeks_loop_mset [OF nz lt])
  also have "filter (\<lambda>it. ns (Done it) < ns ?end) ?pool
      = filter (\<lambda>it. ns (Done it) \<noteq> 0 \<and> ns (Done it) < ns ?end) ?sorted"
    unfolding GetOlder_filter filter_filter by (intro filter_cong) auto
  also have "mset \<dots> = mset (filter (\<lambda>it. ns (Done it) \<noteq> 0 \<and> ns (Done it) < ns ?end) list)"
    by (simp only: mset_filter mset_sort)
  finally show ?thesis .
qed

lemma splitByWeeks_nth:
  "(k < length (splitByWeeks list now)
      \<longleftrightarrow> (\<exists>it\<in>set list. ns (Done it) \<noteq> 0 \<and>
             ns (Done it) \<le> ns (getClosestSunday now) - int k * (7 * DAY))) \<and>
   (k < length (splitByWeeks list now) \<longrightarrow>
      ns (End (splitByWeeks list now ! k)) = ns (getClosestSunday now) - int k * (7 * DAY) \<and>
      ns (Start (splitByWeeks list now ! k)) = ns (getClosestSunday now) - (int k + 1) * (7 * DAY) \<and>
      Items (splitByWeeks list now ! k) =
        filter (\<lambda>it. ns (Done it) \<noteq> 0 \<and>
                     ns (getClosestSunday now) - (int k + 1) * (7 * DAY) \<le> ns (Done it) \<and>
                     ns (Done it) < ns (getClosestSunday now) - int k * (7 * DAY))
          (sort_key (\<lambda>it. ns (DoneAt it)) list))"
proof -
  let ?sorted = "sort_key (\<lambda>it. ns (DoneAt it)) list"
  let ?end = "getClosestSunday now"
  let ?pool = "GetOlder ?sorted ?end"
  have kW: "0 \<le> int k * (7 * DAY)" using DAY_pos by simp
  have pool: "\<forall>it\<in>set ?pool. ns (Done it) \<noteq> 0 \<and> ns (Done it) \<le> ns ?end"
    by (simp add: GetOlder_filter)
  have prev: "ns (getPreviousSunday ?end) = ns ?end - 7 * DAY"
    by (rule ns_getPreviousSunday)
  note nth = weeks_loop_nth [OF pool prev, of k, folded splitByWeeks_loop]
  have ex: "(\<exists>it\<in>set ?pool. ns (Done it) \<le> ns ?end - int k * (7 * DAY))
      = (\<exists>it\<in>set list. ns (Done it) \<noteq> 0 \<and> ns (Done it) \<le> ns ?end - int k * (7 * DAY))"
  proof
    assume "\<exists>it\<in>set ?pool. ns (Done it) \<le> ns ?end - int k * (7 * DAY)"
    then show "\<exists>it\<in>set list. ns (Done it) \<noteq> 0 \<and> ns (Done it) \<le> ns ?end - int k * (7 * DAY)"
      by (auto simp: GetOlder_filter)
  next
    assume "\<exists>it\<in>set list. ns (Done it) \<noteq> 0 \<and> ns (Done it) \<le> ns ?end - int k * (7 * DAY)"
    then obtain it where it: "it \<in> set list" "ns (Done it) \<noteq> 0"
        "ns (Done it) \<le> ns ?end - int k * (7 * DAY)"
      by blast
    then have "ns (Done it) \<le> ns ?end" using kW by linarith
    with it have "it \<in> set ?pool" by (simp add: GetOlder_filter)
    with it(3) show "\<exists>it\<in>set ?pool. ns (Done it) \<le> ns ?end - int k * (7 * DAY)"
      by blast
  qed
  have items: "filter (\<lambda>it. ns ?end - (int k + 1) * (7 * DAY) \<le> ns (Done it) \<and>
        ns (Done it) < ns ?end - int k * (7 * DAY)) ?pool
      = filter (\<lambda>it. ns (Done it) \<noteq> 0 \<and> ns ?end - (int k + 1) * (7 * DAY) \<le> ns (Done it) \<and>
        ns (Done it) < ns ?end - int k * (7 * DAY)) ?sorted"
    unfolding GetOlder_filter filter_filter
  proof (rule filter_cong [OF refl])
    fix it
    have "ns (Done it) < ns ?end - int k * (7 * DAY) \<Longrightarrow> ns (Done it) \<le> ns ?end"
      using kW by linarith
    then show "((ns (Done it) \<noteq> 0 \<and> ns (Done it) \<le> ns ?end) \<and>
        ns ?end - (int k + 1) * (7 * DAY) \<le> ns (Done it) \<and> ns (Done it) < ns ?end - int k * (7 * DAY))
      = (ns (Done it) \<noteq> 0 \<and> ns ?end - (int k + 1) * (7 * DAY) \<le> ns (Done it) \<and>
        ns (Done it) < ns ?end - int k * (7 * DAY))"
      by blast
  qed
  from nth show ?thesis
    unfolding ex items .
qed

lemma splitByWeeks_in_bucket:
  assumes "w \<in> set (splitByWeeks list now)" and "it \<in> set list" and "ns (Done it) \<noteq> 0"
  shows "(it \<in> set (Items w)) = (ns (Start w) \<le> ns (Done it) \<and> ns (Done it) < ns (End w))"
proof -
  from assms(1) obtain k where k: "k < length (splitByWeeks list now)"
      "w = splitByWeeks list now ! k"
    by (auto simp: in_set_conv_nth)
  from splitByWeeks_nth [of k list now] k assms(2,3) show ?thesis
    by auto
qed

lemma closestSunday_is_sunday: "\<exists>q. ns (getClosestSunday now) = (7 * q + 6) * DAY"
proof -
  let ?d = "civil_day now"
  have "(ns now + - 1 * Weekday now * DAY + zone now) div DAY = ?d - Weekday now"
  proof -
    have "ns now + - 1 * Weekday now * DAY + zone now = (ns now + zone now) + (- Weekday now) * DAY"
      by simp
    moreover have "((ns now + zone now) + (- Weekday now) * DAY) div DAY
        = (- Weekday now) + (ns now + zone now) div DAY"
      by (rule div_mult_self1) (use DAY_pos in simp)
    ultimately have "(ns now + - 1 * Weekday now * DAY + zone now) div DAY
        = (- Weekday now) + (ns now + zone now) div DAY"
      by (simp only:)
    then show ?thesis
      unfolding civil_day_def by linarith
  qed
  then have "ns (getClosestSunday now) = (?d - (?d + 1) mod 7) * DAY"
    by (simp add: getClosestSunday_def Let_def Date_UTC_def AddDate_days_def civil_day_def
        Weekday_def)
  moreover have "?d - (?d + 1) mod 7 = 7 * ((?d + 1) div 7 - 1) + 6"
    by presburger
  ultimately show ?thesis by metis
qed

lemma window_start_nonzero:
  assumes "w \<in> set (splitByWeeks list now)"
  shows "ns (Start w) \<noteq> 0"
proof -
  from assms obtain k where k: "k < length (splitByWeeks list now)"
      "w = splitByWeeks list now ! k"
    by (auto simp: in_set_conv_nth)
  obtain q where q: "ns (getClosestSunday now) = (7 * q + 6) * DAY"
    using closestSunday_is_sunday by blast
  from splitByWeeks_nth [of k list now] k
  have "ns (Start w) = ns (getClosestSunday now) - (int k + 1) * (7 * DAY)"
    by simp
  also have "\<dots> = (7 * (q - int k - 1) + 6) * DAY"
    unfolding q by (simp add: algebra_simps)
  finally have "ns (Start w) = (7 * (q - int k - 1) + 6) * DAY" .
  moreover have "7 * (q - int k - 1) + 6 \<noteq> 0"
    by presburger
  ultimately show ?thesis
    using DAY_pos by simp
qed

lemma weeks_loop_opt_total:
  "weeks_loop_opt list start end weeks = Some (weeks @ weeks_loop list start end)"
proof (induction list start "end" arbitrary: weeks rule: weeks_loop.induct)
  case (1 list start "end")
  show ?case
  proof (cases list)
    case Nil
    then show ?thesis
      by (subst weeks_loop_opt.simps) simp
  next
    case (Cons x xs)
    then have "weeks_loop_opt list start end weeks =
        weeks_loop_opt (GetOlder list start) (getPreviousSunday start) start
          (weeks @ [\<lparr>Items = GetInRange list start end, Start = start, End = end\<rparr>])"
      by (subst weeks_loop_opt.simps) simp
    also have "\<dots> = Some ((weeks @ [\<lparr>Items = GetInRange list start end, Start = start, End = end\<rparr>])
        @ weeks_loop (GetOlder list start) (getPreviousSunday start) start)"
      using "1.IH" Cons by simp
    also have "\<dots> = Some (weeks @ weeks_loop list start end)"
      using Cons weeks_loop_Cons [of x xs start "end"] by simp
    finally show ?thesis .
  qed
qed

lemma window_span:
  assumes "w \<in> set (splitByWeeks list now)"
  shows "ns (End w) = ns (Start w) + 7 * DAY"
proof -
  from assms obtain k where k: "k < length (splitByWeeks list now)"
      "w = splitByWeeks list now ! k"
    by (auto simp: in_set_conv_nth)
  from splitByWeeks_nth [of k list now] k show ?thesis
    by (simp add: algebra_simps)
qed

subsection \<open>Evaluating the samples\<close>

lemma ToLower_samples:
  "ToLower ''Done'' = ''done''" "ToLower ''done'' = ''done''" "ToLower ''DONE'' = ''done''"
  by (simp_all add: ToLower_def lower_byte_def)

lemma Done_samples:
  "Done item_aug1 = Date_UTC 738367" "Done item_aug3 = Date_UTC 738369"
  "Done item_jul20 = Date_UTC 738355" "Done item_jul31 = Date_UTC 738366"
  "Done item_aug7 = Date_UTC 738373"
  by (simp_all add: Done_def item_aug1_def item_aug3_def item_jul20_def item_jul31_def
      item_aug7_def sample_item_def text_field_def ToLower_samples)

lemma DoneAt_samples:
  "DoneAt item_aug1 = Date_UTC 738367" "DoneAt item_aug3 = Date_UTC 738369"
  "DoneAt item_jul20 = Date_UTC 738355" "DoneAt item_jul31 = Date_UTC 738366"
  "DoneAt item_aug7 = Date_UTC 738373"
  by (simp_all add: item_aug1_def item_aug3_def item_jul20_def item_jul31_def item_aug7_def
      sample_item_def)

lemma IsDone_samples:
  "IsDone item_jul31" "IsDone item_aug7"
  by (simp_all add: IsDone_def item_jul31_def item_aug7_def sample_item_def text_field_def
      ToLower_samples)

lemma cmp_Date_UTC:
  "Before (Date_UTC a) (Date_UTC b) = (a < b)"
  "After (Date_UTC a) (Date_UTC b) = (a > b)"
  "Equal (Date_UTC a) (Date_UTC b) = (a = b)"
  "(ns (Date_UTC a) \<le> ns (Date_UTC b)) = (a \<le> b)"
  "(ns (Date_UTC a) < ns (Date_UTC b)) = (a < b)"
  "(ns (Date_UTC a) = ns (Date_UTC b)) = (a = b)"
  "(ns (Date_UTC a) = 0) = (a = 0)"
  by (simp_all add: Before_def After_def Equal_def Date_UTC_def DAY_def)

lemma zeroTime_Date_UTC: "zeroTime = Date_UTC 0"
  by (simp add: zeroTime_def Date_UTC_def)

lemma getPreviousSunday_Date_UTC: "getPreviousSunday (Date_UTC d) = Date_UTC (d - 7)"
  by (simp add: getPreviousSunday_def AddDate_days_def Date_UTC_def algebra_simps)

lemma getClosestSunday_Date_UTC: "getClosestSunday (Date_UTC d) = Date_UTC (d - (d + 1) mod 7)"
proof -
  have "d * DAY - (d + 1) mod 7 * DAY = (d - (d + 1) mod 7) * DAY"
    by (simp only: left_diff_distrib)
  moreover have "DAY \<noteq> 0"
    using DAY_pos by simp
  ultimately have "(d * DAY - (d + 1) mod 7 * DAY) div DAY = d - (d + 1) mod 7"
    by simp
  then show ?thesis
    by (simp add: getClosestSunday_def Weekday_def civil_day_def AddDate_days_def Date_UTC_def
        Let_def)
qed

lemma sundays:
  "getClosestSunday (Date_UTC 738376) = Date_UTC 738373"
  "getPreviousSunday (Date_UTC 738373) = Date_UTC 738366"
  "getPreviousSunday (Date_UTC 738366) = Date_UTC 738359"
  "getPreviousSunday (Date_UTC 738359) = Date_UTC 738352"
  "getPreviousSunday (Date_UTC 738352) = Date_UTC 738345"
  by (simp_all add: getClosestSunday_Date_UTC getPreviousSunday_Date_UTC)

text \<open>
  Three items, on 2022-08-01, 2022-08-03 and 2022-07-20, split on Wednesday 2022-08-10:
  three windows, the middle one empty.
\<close>

lemma three_items_sorted:
  "sort_key (\<lambda>it. ns (DoneAt it)) [item_aug1, item_aug3, item_jul20]
   = [item_jul20, item_aug1, item_aug3]"
  by (simp add: DoneAt_samples cmp_Date_UTC)

lemma three_items_pools:
  "GetOlder [item_jul20, item_aug1, item_aug3] (Date_UTC 738373) = [item_jul20, item_aug1, item_aug3]"
  "GetOlder [item_jul20, item_aug1, item_aug3] (Date_UTC 738366) = [item_jul20]"
  "GetOlder [item_jul20] (Date_UTC 738359) = [item_jul20]"
  "GetOlder [item_jul20] (Date_UTC 738352) = []"
  by (simp_all add: Done_samples cmp_Date_UTC zeroTime_Date_UTC)

lemma three_items_ranges:
  "GetInRange [item_jul20, item_aug1, item_aug3] (Date_UTC 738366) (Date_UTC 738373)
   = [item_aug1, item_aug3]"
  "GetInRange [item_jul20] (Date_UTC 738359) (Date_UTC 738366) = []"
  "GetInRange [item_jul20] (Date_UTC 738352) (Date_UTC 738359) = [item_jul20]"
  by (simp_all add: GetInRange_def Done_samples cmp_Date_UTC)

lemma three_items_weeks:
  "splitByWeeks [item_aug1, item_aug3, item_jul20] (Date_UTC 738376) =
     [\<lparr>Items = [item_aug1, item_aug3], Start = Date_UTC 738366, End = Date_UTC 738373\<rparr>,
      \<lparr>Items = [], Start = Date_UTC 738359, End = Date_UTC 738366\<rparr>,
      \<lparr>Items = [item_jul20], Start = Date_UTC 738352, End = Date_UTC 738359\<rparr>]"
  by (simp only: splitByWeeks_def Let_def sundays three_items_sorted three_items_pools
      three_items_ranges weeks_loop_Cons weeks_loop_Nil)

text \<open>An item on 2022-08-01 and one exactly on Sunday 2022-07-31, 00:00 UTC.\<close>

lemma start_item_weeks:
  "splitByWeeks [item_aug1, item_jul31] (Date_UTC 738376) =
     [\<lparr>Items = [item_jul31, item_aug1], Start = Date_UTC 738366, End = Date_UTC 738373\<rparr>,
      \<lparr>Items = [], Start = Date_UTC 738359, End = Date_UTC 738366\<rparr>]"
proof -
  have "sort_key (\<lambda>it. ns (DoneAt it)) [item_aug1, item_jul31] = [item_jul31, item_aug1]"
    by (simp add: DoneAt_samples cmp_Date_UTC)
  moreover have
    "GetOlder [item_jul31, item_aug1] (Date_UTC 738373) = [item_jul31, item_aug1]"
    "GetOlder [item_jul31, item_aug1] (Date_UTC 738366) = [item_jul31]"
    "GetOlder [item_jul31] (Date_UTC 738359) = []"
    by (simp_all add: Done_samples cmp_Date_UTC zeroTime_Date_UTC)
  moreover have
    "GetInRange [item_jul31, item_aug1] (Date_UTC 738366) (Date_UTC 738373)
     = [item_jul31, item_aug1]"
    "GetInRange [item_jul31] (Date_UTC 738359) (Date_UTC 738366) = []"
    by (simp_all add: GetInRange_def Done_samples cmp_Date_UTC)
  ultimately show ?thesis
    by (simp only: splitByWeeks_def Let_def sundays weeks_loop_Cons weeks_loop_Nil)
qed

text \<open>A single item exactly on Sunday 2022-08-07, 00:00 UTC, the initial boundary.\<close>

lemma end_item_weeks:
  "splitByWeeks [item_aug7] (Date_UTC 738376) =
     [\<lparr>Items = [], Start = Date_UTC 738366, End = Date_UTC 738373\<rparr>]"
proof -
  have "sort_key (\<lambda>it. ns (DoneAt it)) [item_aug7] = [item_aug7]"
    by simp
  moreover have
    "GetOlder [item_aug7] (Date_UTC 738373) = [item_aug7]"
    "GetOlder [item_aug7] (Date_UTC 738366) = []"
    by (simp_all add: Done_samples cmp_Date_UTC zeroTime_Date_UTC)
  moreover have "GetInRange [item_aug7] (Date_UTC 738366) (Date_UTC 738373) = []"
    by (simp add: GetInRange_def Done_samples cmp_Date_UTC)
  ultimately show ?thesis
    by (simp only: splitByWeeks_def Let_def sundays weeks_loop_Cons weeks_loop_Nil)
qed

subsection \<open>Window coverage\<close>

text \<open>
  C1, as the code has it. The windows returned by \<open>splitByWeeks\<close> hold, between them,
  exactly the items whose effective completion time is not the zero time and lies
  strictly before the initial boundary, each as often as the input has it. Such an item
  is in the items of exactly one window; an item at or after the initial boundary is in
  none, and so is an item completed exactly on the boundary.
\<close>

theorem splitByWeeks_covers_before_boundary:
  "mset (concat (map Items (splitByWeeks list now)))
     = mset (filter (\<lambda>it. ns (Done it) \<noteq> 0 \<and> ns (Done it) < ns (getClosestSunday now)) list) \<and>
   (it \<in> set list \<and> ns (Done it) \<noteq> 0 \<and> ns (Done it) < ns (getClosestSunday now)
      \<longrightarrow> length (filter (\<lambda>w. it \<in> set (Items w)) (splitByWeeks list now)) = 1) \<and>
   (ns (getClosestSunday now) \<le> ns (Done it)
      \<longrightarrow> length (filter (\<lambda>w. it \<in> set (Items w)) (splitByWeeks list now)) = 0)"
proof (intro conjI impI)
  show m: "mset (concat (map Items (splitByWeeks list now)))
     = mset (filter (\<lambda>it. ns (Done it) \<noteq> 0 \<and> ns (Done it) < ns (getClosestSunday now)) list)"
    by (rule splitByWeeks_mset)
  {
    assume a: "it \<in> set list \<and> ns (Done it) \<noteq> 0 \<and> ns (Done it) < ns (getClosestSunday now)"
    let ?end = "getClosestSunday now"
    let ?pool = "GetOlder (sort_key (\<lambda>it. ns (DoneAt it)) list) ?end"
    have nz: "\<forall>it\<in>set ?pool. ns (Done it) \<noteq> 0"
      by (simp add: GetOlder_filter)
    have lt: "ns (getPreviousSunday ?end) < ns ?end"
      using DAY_pos by (simp add: ns_getPreviousSunday)
    have "it \<in> set ?pool"
      using a by (simp add: GetOlder_filter)
    with a show "length (filter (\<lambda>w. it \<in> set (Items w)) (splitByWeeks list now)) = 1"
      unfolding splitByWeeks_loop by (intro weeks_loop_once [OF nz lt]) simp_all
  }
  {
    assume b: "ns (getClosestSunday now) \<le> ns (Done it)"
    have "set_mset (mset (concat (map Items (splitByWeeks list now))))
        = set_mset (mset (filter (\<lambda>it. ns (Done it) \<noteq> 0 \<and>
            ns (Done it) < ns (getClosestSunday now)) list))"
      by (simp only: m)
    with b have "it \<notin> set (concat (map Items (splitByWeeks list now)))"
      by auto
    then have "filter (\<lambda>w. it \<in> set (Items w)) (splitByWeeks list now) = []"
      by (auto simp: filter_empty_conv)
    then show "length (filter (\<lambda>w. it \<in> set (Items w)) (splitByWeeks list now)) = 0"
      by simp
  }
qed

theorem splitByWeeks_covers_before_boundary_witness:
  "item_aug3 \<in> set [item_aug1, item_aug3, item_jul20] \<and> ns (Done item_aug3) \<noteq> 0 \<and>
   ns (Done item_aug3) < ns (getClosestSunday (Date_UTC 738376)) \<and>
   length (filter (\<lambda>w. item_aug3 \<in> set (Items w))
     (splitByWeeks [item_aug1, item_aug3, item_jul20] (Date_UTC 738376))) = 1 \<and>
   ns (getClosestSunday (Date_UTC 738376)) \<le> ns (Done item_aug7) \<and>
   length (filter (\<lambda>w. item_aug7 \<in> set (Items w))
     (splitByWeeks [item_aug7] (Date_UTC 738376))) = 0"
proof -
  have a: "item_aug3 \<in> set [item_aug1, item_aug3, item_jul20] \<and> ns (Done item_aug3) \<noteq> 0 \<and>
      ns (Done item_aug3) < ns (getClosestSunday (Date_UTC 738376))"
    by (simp add: Done_samples sundays cmp_Date_UTC)
  have b: "ns (getClosestSunday (Date_UTC 738376)) \<le> ns (Done item_aug7)"
    by (simp add: Done_samples sundays)
  from splitByWeeks_covers_before_boundary
        [of "[item_aug1, item_aug3, item_jul20]" "Date_UTC 738376" item_aug3]
      splitByWeeks_covers_before_boundary [of "[item_aug7]" "Date_UTC 738376" item_aug7] a b
  show ?thesis by blast
qed

text \<open>
  The claim as the specification words it fails on the boundary itself: a done item
  completed exactly at the initial boundary keeps the pool non-empty, so one window is
  emitted, but the item is neither in that window nor in any other.
\<close>

theorem boundary_item_counterexample:
  "IsDone item_aug7 \<and> Done item_aug7 = getClosestSunday (Date_UTC 738376) \<and>
   splitByWeeks [item_aug7] (Date_UTC 738376) =
     [\<lparr>Items = [], Start = Date_UTC 738366, End = Date_UTC 738373\<rparr>] \<and>
   length (filter (\<lambda>w. item_aug7 \<in> set (Items w))
     (splitByWeeks [item_aug7] (Date_UTC 738376))) = 0"
  by (simp add: IsDone_samples Done_samples sundays end_item_weeks)

subsection \<open>Ties on a window boundary\<close>

text \<open>
  C2. A done item completed exactly at the start of an emitted window is in that window
  and in no window that ends at that instant: an item is in a window exactly when its time
  is at or after the window's start and strictly before its end.
\<close>

theorem start_tie_goes_to_window_starting_there:
  assumes "it \<in> set list" and "IsDone it" and "w \<in> set (splitByWeeks list now)"
    and "ns (DoneAt it) = ns (Start w)"
  shows "it \<in> set (Items w) \<and>
         (\<forall>w'\<in>set (splitByWeeks list now). ns (End w') = ns (DoneAt it) \<longrightarrow> it \<notin> set (Items w')) \<and>
         (\<forall>w'\<in>set (splitByWeeks list now).
            (it \<in> set (Items w')) =
            (ns (Start w') \<le> ns (DoneAt it) \<and> ns (DoneAt it) < ns (End w')))"
proof -
  have d: "Done it = DoneAt it"
    using assms(2) by (rule IsDone_Done)
  have nz: "ns (Done it) \<noteq> 0"
    using window_start_nonzero [OF assms(3)] assms(4) d by simp
  have rule: "(it \<in> set (Items w')) = (ns (Start w') \<le> ns (DoneAt it) \<and> ns (DoneAt it) < ns (End w'))"
    if "w' \<in> set (splitByWeeks list now)" for w'
    using splitByWeeks_in_bucket [OF that assms(1) nz] d by simp
  have "ns (Start w) < ns (End w)"
    using window_span [OF assms(3)] DAY_pos by simp
  with rule [OF assms(3)] assms(4) have "it \<in> set (Items w)"
    by simp
  moreover have "\<forall>w'\<in>set (splitByWeeks list now). ns (End w') = ns (DoneAt it) \<longrightarrow> it \<notin> set (Items w')"
    using rule by simp
  ultimately show ?thesis
    using rule by blast
qed

theorem start_tie_goes_to_window_starting_there_witness:
  "item_jul31 \<in> set [item_aug1, item_jul31] \<and> IsDone item_jul31 \<and>
   \<lparr>Items = [item_jul31, item_aug1], Start = Date_UTC 738366, End = Date_UTC 738373\<rparr>
     \<in> set (splitByWeeks [item_aug1, item_jul31] (Date_UTC 738376)) \<and>
   ns (DoneAt item_jul31) = ns (Start
     \<lparr>Items = [item_jul31, item_aug1], Start = Date_UTC 738366, End = Date_UTC 738373\<rparr>) \<and>
   \<lparr>Items = [], Start = Date_UTC 738359, End = Date_UTC 738366\<rparr>
     \<in> set (splitByWeeks [item_aug1, item_jul31] (Date_UTC 738376)) \<and>
   ns (End \<lparr>Items = [], Start = Date_UTC 738359, End = Date_UTC 738366\<rparr>) = ns (DoneAt item_jul31) \<and>
   item_jul31 \<in> set (Items
     \<lparr>Items = [item_jul31, item_aug1], Start = Date_UTC 738366, End = Date_UTC 738373\<rparr>) \<and>
   item_jul31 \<notin> set (Items \<lparr>Items = [], Start = Date_UTC 738359, End = Date_UTC 738366\<rparr>)"
proof -
  let ?w0 = "\<lparr>Items = [item_jul31, item_aug1], Start = Date_UTC 738366, End = Date_UTC 738373\<rparr>"
  let ?w1 = "\<lparr>Items = [], Start = Date_UTC 738359, End = Date_UTC 738366\<rparr>"
  have a: "item_jul31 \<in> set [item_aug1, item_jul31]" by simp
  have b: "IsDone item_jul31" by (rule IsDone_samples)
  have c: "?w0 \<in> set (splitByWeeks [item_aug1, item_jul31] (Date_UTC 738376))"
    and c': "?w1 \<in> set (splitByWeeks [item_aug1, item_jul31] (Date_UTC 738376))"
    by (simp_all only: start_item_weeks list.set insert_iff simp_thms)
  have e: "ns (DoneAt item_jul31) = ns (Start ?w0)" and e': "ns (End ?w1) = ns (DoneAt item_jul31)"
    by (simp_all add: DoneAt_samples)
  from start_tie_goes_to_window_starting_there [OF a b c e] a b c c' e e'
  show ?thesis by blast
qed

subsection \<open>Termination\<close>

text \<open>
  C9. The loop of \<open>splitByWeeks\<close>, taken as it is written, returns for every list and
  every \<open>now\<close>, and what it returns is the list of windows of \<open>splitByWeeks\<close>. Window
  \<open>k\<close> ends \<open>k\<close> times seven days before the initial boundary and starts seven days
  before it ends; the loop reaches window \<open>k\<close> exactly while some item with a non-zero
  completion time lies at or before that window's end, so it stops once the boundary has
  moved below the oldest item.
\<close>

theorem splitByWeeks_terminates:
  "splitByWeeks_opt list now = Some (splitByWeeks list now) \<and>
   (\<forall>k. k < length (splitByWeeks list now) \<longleftrightarrow>
      (\<exists>it\<in>set list. ns (Done it) \<noteq> 0 \<and>
         ns (Done it) \<le> ns (getClosestSunday now) - int k * (7 * DAY))) \<and>
   (\<forall>k. k < length (splitByWeeks list now) \<longrightarrow>
      ns (End (splitByWeeks list now ! k)) = ns (getClosestSunday now) - int k * (7 * DAY) \<and>
      ns (Start (splitByWeeks list now ! k)) = ns (End (splitByWeeks list now ! k)) - 7 * DAY)"
proof (intro conjI allI impI)
  show "splitByWeeks_opt list now = Some (splitByWeeks list now)"
    by (simp add: splitByWeeks_opt_def splitByWeeks_def Let_def weeks_loop_opt_total)
next
  fix k
  show "k < length (splitByWeeks list now) \<longleftrightarrow>
      (\<exists>it\<in>set list. ns (Done it) \<noteq> 0 \<and>
         ns (Done it) \<le> ns (getClosestSunday now) - int k * (7 * DAY))"
    using splitByWeeks_nth [of k list now] by blast
next
  fix k
  assume "k < length (splitByWeeks list now)"
  with splitByWeeks_nth [of k list now]
  have "ns (End (splitByWeeks list now ! k)) = ns (getClosestSunday now) - int k * (7 * DAY)"
    and "ns (Start (splitByWeeks list now ! k))
         = ns (getClosestSunday now) - (int k + 1) * (7 * DAY)"
    by blast+
  then show "ns (End (splitByWeeks list now ! k)) = ns (getClosestSunday now) - int k * (7 * DAY)"
    and "ns (Start (splitByWeeks list now ! k)) = ns (End (splitByWeeks list now ! k)) - 7 * DAY"
    by (simp_all add: algebra_simps)
qed

theorem splitByWeeks_terminates_witness:
  "splitByWeeks_opt [item_aug1, item_aug3, item_jul20] (Date_UTC 738376) =
     Some [\<lparr>Items = [item_aug1, item_aug3], Start = Date_UTC 738366, End = Date_UTC 738373\<rparr>,
           \<lparr>Items = [], Start = Date_UTC 738359, End = Date_UTC 738366\<rparr>,
           \<lparr>Items = [item_jul20], Start = Date_UTC 738352, End = Date_UTC 738359\<rparr>] \<and>
   2 < length (splitByWeeks [item_aug1, item_aug3, item_jul20] (Date_UTC 738376)) \<and>
   ns (End (splitByWeeks [item_aug1, item_aug3, item_jul20] (Date_UTC 738376) ! 2))
     = ns (getClosestSunday (Date_UTC 738376)) - int 2 * (7 * DAY) \<and>
   ns (Start (splitByWeeks [item_aug1, item_aug3, item_jul20] (Date_UTC 738376) ! 2))
     = ns (End (splitByWeeks [item_aug1, item_aug3, item_jul20] (Date_UTC 738376) ! 2)) - 7 * DAY \<and>
   \<not> 3 < length (splitByWeeks [item_aug1, item_aug3, item_jul20] (Date_UTC 738376))"
proof -
  have len: "2 < length (splitByWeeks [item_aug1, item_aug3, item_jul20] (Date_UTC 738376))"
    "\<not> 3 < length (splitByWeeks [item_aug1, item_aug3, item_jul20] (Date_UTC 738376))"
    by (simp_all add: three_items_weeks)
  from splitByWeeks_terminates [of "[item_aug1, item_aug3, item_jul20]" "Date_UTC 738376"] len
  show ?thesis
    unfolding three_items_weeks [symmetric] by blast
qed

subsection \<open>Contiguous windows, idle weeks included\<close>

text \<open>
  C10. Each window after the first ends where the window emitted before it starts. A
  seven-day span that holds no item is still emitted, with an empty item list, as long as
  some item with a non-zero completion time lies at or before the span's upper edge: one
  window per week from the initial boundary down to the oldest item.
\<close>

theorem windows_gapless_with_idle_weeks:
  "(\<forall>k. Suc k < length (splitByWeeks list now) \<longrightarrow>
      End (splitByWeeks list now ! Suc k) = Start (splitByWeeks list now ! k)) \<and>
   (\<forall>k. (\<exists>it\<in>set list. ns (Done it) \<noteq> 0 \<and>
            ns (Done it) \<le> ns (getClosestSunday now) - int k * (7 * DAY)) \<and>
         filter (\<lambda>it. ns (Done it) \<noteq> 0 \<and>
                   ns (getClosestSunday now) - (int k + 1) * (7 * DAY) \<le> ns (Done it) \<and>
                   ns (Done it) < ns (getClosestSunday now) - int k * (7 * DAY)) list = []
      \<longrightarrow> k < length (splitByWeeks list now) \<and>
          Items (splitByWeeks list now ! k) = [] \<and>
          ns (End (splitByWeeks list now ! k)) = ns (getClosestSunday now) - int k * (7 * DAY) \<and>
          ns (Start (splitByWeeks list now ! k))
            = ns (getClosestSunday now) - (int k + 1) * (7 * DAY))"
proof (intro conjI allI impI)
  fix k
  assume "Suc k < length (splitByWeeks list now)"
  then show "End (splitByWeeks list now ! Suc k) = Start (splitByWeeks list now ! k)"
    unfolding splitByWeeks_loop by (rule weeks_loop_chain)
next
  fix k
  let ?in_span = "\<lambda>it. ns (Done it) \<noteq> 0 \<and>
      ns (getClosestSunday now) - (int k + 1) * (7 * DAY) \<le> ns (Done it) \<and>
      ns (Done it) < ns (getClosestSunday now) - int k * (7 * DAY)"
  assume a: "(\<exists>it\<in>set list. ns (Done it) \<noteq> 0 \<and>
        ns (Done it) \<le> ns (getClosestSunday now) - int k * (7 * DAY)) \<and>
      filter ?in_span list = []"
  with splitByWeeks_nth [of k list now]
  show len: "k < length (splitByWeeks list now)"
    by blast
  with splitByWeeks_nth [of k list now]
  show "ns (End (splitByWeeks list now ! k)) = ns (getClosestSunday now) - int k * (7 * DAY)"
    and "ns (Start (splitByWeeks list now ! k))
         = ns (getClosestSunday now) - (int k + 1) * (7 * DAY)"
    by blast+
  from len splitByWeeks_nth [of k list now]
  have "Items (splitByWeeks list now ! k)
      = filter ?in_span (sort_key (\<lambda>it. ns (DoneAt it)) list)"
    by blast
  moreover have "mset (filter ?in_span (sort_key (\<lambda>it. ns (DoneAt it)) list))
      = mset (filter ?in_span list)"
    by (simp only: mset_filter mset_sort)
  ultimately have "mset (Items (splitByWeeks list now ! k)) = {#}"
    using a by simp
  then show "Items (splitByWeeks list now ! k) = []"
    by simp
qed

theorem windows_gapless_with_idle_weeks_witness:
  "Suc 0 < length (splitByWeeks [item_aug1, item_aug3, item_jul20] (Date_UTC 738376)) \<and>
   End (splitByWeeks [item_aug1, item_aug3, item_jul20] (Date_UTC 738376) ! Suc 0)
     = Start (splitByWeeks [item_aug1, item_aug3, item_jul20] (Date_UTC 738376) ! 0) \<and>
   (\<exists>it\<in>set [item_aug1, item_aug3, item_jul20]. ns (Done it) \<noteq> 0 \<and>
      ns (Done it) \<le> ns (getClosestSunday (Date_UTC 738376)) - int 1 * (7 * DAY)) \<and>
   filter (\<lambda>it. ns (Done it) \<noteq> 0 \<and>
             ns (getClosestSunday (Date_UTC 738376)) - (int 1 + 1) * (7 * DAY) \<le> ns (Done it) \<and>
             ns (Done it) < ns (getClosestSunday (Date_UTC 738376)) - int 1 * (7 * DAY))
     [item_aug1, item_aug3, item_jul20] = [] \<and>
   1 < length (splitByWeeks [item_aug1, item_aug3, item_jul20] (Date_UTC 738376)) \<and>
   Items (splitByWeeks [item_aug1, item_aug3, item_jul20] (Date_UTC 738376) ! 1) = []"
proof -
  have len: "Suc 0 < length (splitByWeeks [item_aug1, item_aug3, item_jul20] (Date_UTC 738376))"
    by (simp add: three_items_weeks)
  have ns: "ns (Date_UTC d) = d * DAY" for d
    by (simp add: Date_UTC_def)
  have ex: "\<exists>it\<in>set [item_aug1, item_aug3, item_jul20]. ns (Done it) \<noteq> 0 \<and>
      ns (Done it) \<le> ns (getClosestSunday (Date_UTC 738376)) - int 1 * (7 * DAY)"
    by (simp add: Done_samples sundays ns DAY_def)
  have none: "filter (\<lambda>it. ns (Done it) \<noteq> 0 \<and>
        ns (getClosestSunday (Date_UTC 738376)) - (int 1 + 1) * (7 * DAY) \<le> ns (Done it) \<and>
        ns (Done it) < ns (getClosestSunday (Date_UTC 738376)) - int 1 * (7 * DAY))
      [item_aug1, item_aug3, item_jul20] = []"
    by (simp add: Done_samples sundays ns DAY_def)
  from windows_gapless_with_idle_weeks [of "[item_aug1, item_aug3, item_jul20]" "Date_UTC 738376"]
    len ex none
  show ?thesis by blast
qed

subsection \<open>Branch patterns that do not compile\<close>

text \<open>
  The matchers of the older revision, for comparison with the glob matchers: there the
  label pattern \<open>*\<close> matches every item, labels are compared in lower case, and a branch
  rule looks at the branch only through the regular expression.
\<close>

lemma HasLabel_re_star: "HasLabel_re it ''*''"
  by (simp add: HasLabel_re_def TrimSpace_samples ToLower_def lower_byte_def)

lemma HasLabel_re_ignores_case:
  assumes "label \<in> set (Item.Labels it)" and "ToLower (TrimSpace label) = ToLower (TrimSpace l)"
  shows "HasLabel_re it l"
  using assms by (auto simp: HasLabel_re_def Let_def list_ex_iff)

lemma IsBranch_re_slug:
  "IsBranch_re MatchString it org repo re =
     (Slug (Item.Repo it) = TrimSpace org @ ''/'' @ TrimSpace repo \<and>
      MatchString re (Repo.Branch (Item.Repo it)))"
  by (simp add: IsBranch_re_def Let_def)

lemma branches_re_invalid:
  "list_ex (\<lambda>b. Compile (TrimSpace (Branch.Branch b)) = None) bs \<Longrightarrow>
   \<exists>b. branches_re Compile MatchString name bs mine left = Inl (BranchRegexPanic name b)"
  by (induction bs arbitrary: mine left) (auto simp: Let_def split: option.splits prod.splits)

lemma ExtractAndRender_re_invalid:
  assumes "list_ex (\<lambda>b. Compile (TrimSpace (Branch.Branch b)) = None) (Branches (Match s))"
  shows "\<exists>p. ExtractAndRender_re Compile MatchString s list = Inl p"
proof -
  obtain m1 l1 where a: "ExtractByLabels_re list (Match.Labels (Match s)) = (m1, l1)"
    by (cases "ExtractByLabels_re list (Match.Labels (Match s))")
  obtain m2 l2 where b: "ExtractByPrefixes_re l1 (Prefixes (Match s)) = (m2, l2)"
    by (cases "ExtractByPrefixes_re l1 (Prefixes (Match s))")
  from branches_re_invalid [OF assms, of MatchString "Section.Name s" "m1 @ m2" l2]
  obtain br where "branches_re Compile MatchString (Section.Name s) (Branches (Match s)) (m1 @ m2) l2
      = Inl (BranchRegexPanic (Section.Name s) br)"
    by blast
  with a b show ?thesis
    by (simp add: ExtractAndRender_re_def)
qed

lemma render_sections_re_invalid:
  "has_invalid_branch Compile ss \<Longrightarrow>
   \<exists>p. render_sections_re Compile MatchString ss left sections = Inl p"
proof (induction ss arbitrary: left sections)
  case Nil
  then show ?case by (simp add: has_invalid_branch_def)
next
  case (Cons s ss)
  show ?case
  proof (cases "ExtractAndRender_re Compile MatchString s left")
    case (Inl p)
    then show ?thesis by simp
  next
    case (Inr r)
    obtain buf left' where r: "r = (buf, left')" by (cases r)
    have "\<not> list_ex (\<lambda>b. Compile (TrimSpace (Branch.Branch b)) = None) (Branches (Match s))"
      using ExtractAndRender_re_invalid [of Compile s MatchString left] Inr by auto
    with Cons.prems have "has_invalid_branch Compile ss"
      by (simp add: has_invalid_branch_def)
    from Cons.IH [OF this, of left' "sections(Section.RenderOrder s \<mapsto> buf)"]
    obtain p where p: "render_sections_re Compile MatchString ss left'
        (sections(Section.RenderOrder s \<mapsto> buf)) = Inl p"
      by blast
    have "render_sections_re Compile MatchString (s # ss) left sections
        = render_sections_re Compile MatchString ss left' (sections(Section.RenderOrder s \<mapsto> buf))"
      using Inr r by simp
    with p show ?thesis by (simp only:) blast
  qed
qed

text \<open>
  C6, as the code has it. In the revision that reads branch patterns as regular
  expressions, a pattern is compiled when \<open>ExtractAndRender\<close> reaches its rule. With a
  pattern that does not compile in some section, \<open>render\<close> panics on every window,
  whatever its items, so a run with at least one window ends in the panic during the first
  window, before a report file is written; a run with no window never calls \<open>render\<close>
  and completes without any error.
\<close>

theorem invalid_branch_panics_in_render:
  assumes "has_invalid_branch Compile (Sections cfg)"
  shows "(\<exists>p. render_re Compile MatchString cfg week = Inl p) \<and>
         (\<exists>p. write_reports_re Compile MatchString cfg (week # weeks) [] = Inl (p, [])) \<and>
         write_reports_re Compile MatchString cfg [] [] = Inr []"
proof -
  from render_sections_re_invalid [OF assms, of MatchString "Items week" Map.empty]
  obtain p where "render_sections_re Compile MatchString (Sections cfg) (Items week) Map.empty = Inl p"
    by blast
  then have "render_re Compile MatchString cfg week = Inl p"
    by (simp add: render_re_def)
  then show ?thesis by simp
qed

lemma cfgBad_invalid: "has_invalid_branch literal_Compile (Sections cfgBad)"
proof -
  have "TrimSpace ''('' = ''(''"
    by (simp add: TrimSpace_def isSpace_def)
  then show ?thesis
    by (simp add: has_invalid_branch_def cfgBad_def sectionBad_def sectionBoth_def
        literal_Compile_def)
qed

theorem invalid_branch_panics_in_render_witness:
  "has_invalid_branch literal_Compile (Sections cfgBad) \<and>
   (\<exists>p. render_re literal_Compile literal_MatchString cfgBad
          \<lparr>Items = [itemBoth], Start = Date_UTC 738366, End = Date_UTC 738373\<rparr> = Inl p) \<and>
   (\<exists>p. write_reports_re literal_Compile literal_MatchString cfgBad
          [\<lparr>Items = [itemBoth], Start = Date_UTC 738366, End = Date_UTC 738373\<rparr>] [] = Inl (p, [])) \<and>
   write_reports_re literal_Compile literal_MatchString cfgBad [] [] = Inr []"
  using invalid_branch_panics_in_render [OF cfgBad_invalid, of literal_MatchString
      "\<lparr>Items = [itemBoth], Start = Date_UTC 738366, End = Date_UTC 738373\<rparr>" "[]"]
    cfgBad_invalid
  by blast

text \<open>
  The claim as the specification words it fails when no window is due: the items
  of graphql\_test.go are not done, so there is no window, and the run over the
  configuration with the branch pattern \<open>(\<close> writes no file and reports no error.
\<close>

theorem invalid_branch_counterexample:
  "has_invalid_branch literal_Compile (Sections cfgBad) \<and>
   splitByWeeks (GetDone [itemIssue88, itemPr24]) (Date_UTC 738376) = [] \<and>
   write_reports_re literal_Compile literal_MatchString cfgBad
     (splitByWeeks (GetDone [itemIssue88, itemPr24]) (Date_UTC 738376)) [] = Inr []"
proof -
  have "ToLower ''Todo'' = ''todo''"
    by (simp add: ToLower_def lower_byte_def)
  then have "GetDone [itemIssue88, itemPr24] = []"
    by (simp add: GetDone_def IsDone_def itemIssue88_def itemPr24_def sample_item_def
        text_field_def)
  then have "splitByWeeks (GetDone [itemIssue88, itemPr24]) (Date_UTC 738376) = []"
    by (simp add: splitByWeeks_def Let_def)
  with cfgBad_invalid show ?thesis by simp
qed

end
